theory Spec2Isabelle
  imports Main "HOL-Library.AList" "HOL-Library.Multiset" "HOL-Library.Product_Lexorder"
begin

section \<open>Python values: exceptions and dictionaries\<close>

text \<open>
  The exceptions the merge code can raise on its own: a missing dictionary key, a list
  index out of range, and the \<open>ValueError\<close> of a constructor that is given a line type
  its class does not allow. A computation that may raise returns \<open>error + 'a\<close>.
\<close>

datatype error = KeyError | IndexError | ValueError

definition ebind :: "error + 'a \<Rightarrow> ('a \<Rightarrow> error + 'b) \<Rightarrow> error + 'b" where
  "ebind m f = (case m of Inl e \<Rightarrow> Inl e | Inr x \<Rightarrow> f x)"

text \<open>
  A Python \<open>dict\<close> (and an \<open>OrderedDict\<close>) keeps its keys in insertion order: storing
  under a key that is present replaces the value in place, under a new key appends.
  That is \<^const>\<open>AList.update\<close> on an association list.
\<close>

type_synonym ('k, 'v) dict = "('k \<times> 'v) list"

definition dict_get :: "('k, 'v) dict \<Rightarrow> 'k \<Rightarrow> 'v option" where
  "dict_get d k = map_of d k"

definition dict_set :: "('k, 'v) dict \<Rightarrow> 'k \<Rightarrow> 'v \<Rightarrow> ('k, 'v) dict" where
  "dict_set d k v = AList.update k v d"

definition dict_update :: "('k, 'v) dict \<Rightarrow> ('k \<times> 'v) list \<Rightarrow> ('k, 'v) dict" where
  "dict_update d kvs = fold (\<lambda>(k, v) acc. dict_set acc k v) kvs d"

definition dict_of :: "('k \<times> 'v) list \<Rightarrow> ('k, 'v) dict" where
  "dict_of kvs = dict_update [] kvs"

definition dict_pop :: "('k, 'v) dict \<Rightarrow> 'k \<Rightarrow> ('k, 'v) dict" where
  "dict_pop d k = AList.delete k d"

definition dict_keys :: "('k, 'v) dict \<Rightarrow> 'k list" where
  "dict_keys d = map fst d"

text \<open>Python list indexing: a negative index counts from the end, anything else raises.\<close>

definition list_get :: "'a list \<Rightarrow> int \<Rightarrow> error + 'a" where
  "list_get xs i =
     (if 0 \<le> i \<and> i < int (length xs) then Inr (xs ! nat i)
      else if i < 0 \<and> - int (length xs) \<le> i then Inr (xs ! nat (int (length xs) + i))
      else Inl IndexError)"

text \<open>\<open>range(lo, hi)\<close>, empty when \<open>hi \<le> lo\<close>.\<close>

definition range :: "int \<Rightarrow> int \<Rightarrow> int list" where
  "range lo hi = [lo..hi - 1]"

subsection \<open>Integers as text\<close>

text \<open>
  \<open>str\<close> of an integer and \<open>int\<close> of a string of decimal digits, and \<open>sep.join\<close>. The
  characters of the model are eight-bit, so the digits \<open>\d\<close> matches are \<open>0\<close> to \<open>9\<close>.
  (An interpreter can be configured to refuse very long digit strings; the model
  converts every digit string.)
\<close>

definition is_digit :: "char \<Rightarrow> bool" where
  "is_digit c \<longleftrightarrow> c \<in> set ''0123456789''"

definition digit_val :: "char \<Rightarrow> int" where
  "digit_val c =
     (case map_of (zip ''0123456789'' [0, 1, 2, 3, 4, 5, 6, 7, 8, 9]) c of
        None \<Rightarrow> 0 | Some d \<Rightarrow> d)"

definition int_of_digits :: "string \<Rightarrow> int" where
  "int_of_digits ds = foldl (\<lambda>n c. 10 * n + digit_val c) 0 ds"

fun str_nat :: "nat \<Rightarrow> string" where
  "str_nat n =
     (if n < 10 then [''0123456789'' ! n]
      else str_nat (n div 10) @ [''0123456789'' ! (n mod 10)])"

declare str_nat.simps [simp del]

definition str_int :: "int \<Rightarrow> string" where
  "str_int i = (if i < 0 then CHR ''-'' # str_nat (nat (- i)) else str_nat (nat i))"

fun join :: "string \<Rightarrow> string list \<Rightarrow> string" where
  "join sep [] = []"
| "join sep [x] = x"
| "join sep (x # y # ys) = x @ sep @ join sep (y # ys)"

section \<open>Records: class \<open>ASSLine\<close> and its subclasses\<close>

text \<open>
  An \<open>ASSLine\<close> holds the dictionary \<open>fields\<close> (field name to value, the line type
  under the key \<open>Type\<close>) and the provenance tag \<open>source_file\<close>. The subclasses differ in
  the line types they allow (\<open>VALID_TYPES\<close>); a \<open>DialogueLine\<close> moreover keeps the
  side-table references of its text in the list \<open>extra_indices\<close>. The class of an object
  is the component \<open>class_of\<close>; \<open>extra_indices\<close> is read for a \<open>DialogueLine\<close> only.
  Data lines, whose \<open>Id\<close> is an integer, are the record \<open>DataLine\<close> of the side-table
  section; no line of that class is ever merged field by field.
\<close>

datatype line_class = ASSLine_cls | DialogueLine_cls | StyleLine_cls | KeyValueLine_cls

fun VALID_TYPES :: "line_class \<Rightarrow> string list option" where
  "VALID_TYPES DialogueLine_cls = Some [''Dialogue'', ''Comment'']"
| "VALID_TYPES StyleLine_cls = Some [''Style'']"
| "VALID_TYPES ASSLine_cls = None"
| "VALID_TYPES KeyValueLine_cls = None"

record ASSLine =
  class_of :: line_class
  fields_dict :: "(string, string) dict"
  source_file :: "string option"
  extra_indices :: "int list"

text \<open>
  The property \<open>Text\<close> of a \<open>DialogueLine\<close>: the text with the references written back
  in front of it as \<open>{=i=j}\<close>, or the text alone when the line has no reference.
\<close>

definition Text :: "ASSLine \<Rightarrow> error + string" where
  "Text self =
     (if length (extra_indices self) > 0 then
        (case dict_get (fields_dict self) ''Text'' of
           None \<Rightarrow> Inl KeyError
         | Some t \<Rightarrow> Inr (''{='' @ join ''='' (map str_int (extra_indices self)) @ ''}'' @ t))
      else
        (case dict_get (fields_dict self) ''Text'' of
           None \<Rightarrow> Inl KeyError
         | Some t \<Rightarrow> Inr t))"

text \<open>
  The line is a read-only \<open>Mapping\<close>: \<open>__iter__\<close> yields \<open>Type\<close> and then every key of
  \<open>fields\<close>, \<open>__getitem__\<close> is \<open>getattr\<close>, which finds the property \<open>Text\<close> of a
  \<open>DialogueLine\<close> and otherwise falls back to \<open>__getattr__\<close>, that is \<open>fields[key]\<close>.
  (A key that names another attribute of the object, such as \<open>fields\<close> or
  \<open>source_file\<close>, is in no field list of the program and is read from \<open>fields\<close> here.)
\<close>

definition getattr :: "ASSLine \<Rightarrow> string \<Rightarrow> error + string" where
  "getattr self key =
     (if class_of self = DialogueLine_cls \<and> key = ''Text'' then Text self
      else case dict_get (fields_dict self) key of None \<Rightarrow> Inl KeyError | Some v \<Rightarrow> Inr v)"

definition getitem :: "ASSLine \<Rightarrow> string \<Rightarrow> error + string" where
  "getitem self item = getattr self item"

definition iter_line :: "ASSLine \<Rightarrow> string list" where
  "iter_line self = ''Type'' # dict_keys (fields_dict self)"

text \<open>\<open>Mapping.items\<close>: the pairs \<open>(key, self[key])\<close> for the keys \<open>__iter__\<close> yields.\<close>

fun items_of :: "ASSLine \<Rightarrow> string list \<Rightarrow> error + (string \<times> string) list" where
  "items_of self [] = Inr []"
| "items_of self (key # keys) =
     ebind (getitem self key) (\<lambda>v.
     ebind (items_of self keys) (\<lambda>rest. Inr ((key, v) # rest)))"

definition items :: "ASSLine \<Rightarrow> error + (string \<times> string) list" where
  "items self = items_of self (iter_line self)"

text \<open>
  \<open>Mapping.__eq__\<close>: two lines are equal when the dictionaries of their items are;
  dictionaries compare by content, not by order.
\<close>

definition dict_eq :: "('k, 'v) dict \<Rightarrow> ('k, 'v) dict \<Rightarrow> bool" where
  "dict_eq d1 d2 \<longleftrightarrow>
     list_all (\<lambda>(k, v). dict_get d2 k = Some v) d1 \<and>
     list_all (\<lambda>(k, v). dict_get d1 k = Some v) d2"

definition line_eq :: "ASSLine \<Rightarrow> ASSLine \<Rightarrow> error + bool" where
  "line_eq x y =
     ebind (items x) (\<lambda>ix.
     ebind (items y) (\<lambda>iy. Inr (dict_eq (dict_of ix) (dict_of iy))))"

subsection \<open>The constructors\<close>

text \<open>
  The pattern \<open>^\{((?:=\d+)+)\}(.*)$\<close> of the \<open>DialogueLine\<close> constructor.
  \<open>scan_refs\<close> reads the groups \<open>=\d+\<close> up to the closing brace, after the opening
  \<open>{=\<close>: it returns the digit strings and what follows the brace. \<open>rest_of_line\<close> is
  \<open>(.*)$\<close>: the rest holds no line feed, or a single one at its very end, which the
  group leaves out. \<open>match_text\<close> returns the integers of group 1 and group 2.
\<close>

fun scan_refs :: "string list \<Rightarrow> string \<Rightarrow> string \<Rightarrow> (string list \<times> string) option" where
  "scan_refs groups digits [] = None"
| "scan_refs groups digits (c # rest) =
     (if is_digit c then scan_refs groups (digits @ [c]) rest
      else if digits = [] then None
      else if c = CHR ''}'' then Some (groups @ [digits], rest)
      else if c = CHR ''='' then scan_refs (groups @ [digits]) [] rest
      else None)"

definition rest_of_line :: "string \<Rightarrow> string option" where
  "rest_of_line s =
     (if CHR 0x0A \<notin> set s then Some s
      else if s \<noteq> [] \<and> last s = CHR 0x0A \<and> CHR 0x0A \<notin> set (butlast s) then Some (butlast s)
      else None)"

definition match_text :: "string \<Rightarrow> (int list \<times> string) option" where
  "match_text s =
     (case s of
        c1 # c2 # t \<Rightarrow>
          (if c1 = CHR ''{'' \<and> c2 = CHR ''='' then
             (case scan_refs [] [] t of
                None \<Rightarrow> None
              | Some (groups, rest) \<Rightarrow>
                  (case rest_of_line rest of
                     None \<Rightarrow> None
                   | Some group2 \<Rightarrow> Some (map int_of_digits groups, group2)))
           else None)
      | _ \<Rightarrow> None)"

text \<open>
  \<open>ASSLine.__init__\<close> with \<open>fields\<close> given: the dictionary is kept as it is, and a class
  with \<open>VALID_TYPES\<close> raises \<open>ValueError\<close> for any other line type.
\<close>

definition ASSLine_init :: "line_class \<Rightarrow> (string, string) dict \<Rightarrow> string option \<Rightarrow> error + ASSLine" where
  "ASSLine_init c kw_fields src =
     (let self = \<lparr>class_of = c, fields_dict = kw_fields, source_file = src, extra_indices = []\<rparr> in
      case VALID_TYPES c of
        None \<Rightarrow> Inr self
      | Some valid \<Rightarrow>
          ebind (getattr self ''Type'') (\<lambda>t.
            if t \<notin> set valid then Inl ValueError else Inr self))"

text \<open>
  \<open>DialogueLine.__init__\<close>: after the base constructor, a text that matches the pattern
  gives the references, and the text is replaced by what follows the group.
\<close>

definition DialogueLine_init :: "(string, string) dict \<Rightarrow> string option \<Rightarrow> error + ASSLine" where
  "DialogueLine_init kw_fields src =
     ebind (ASSLine_init DialogueLine_cls kw_fields src) (\<lambda>self.
       case dict_get (fields_dict self) ''Text'' of
         None \<Rightarrow> Inl KeyError
       | Some t \<Rightarrow>
           (case match_text t of
              None \<Rightarrow> Inr self
            | Some (indices, group2) \<Rightarrow>
                Inr (self\<lparr>extra_indices := indices,
                          fields_dict := dict_set (fields_dict self) ''Text'' group2\<rparr>)))"

text \<open>The call \<open>cls(fields=..., source_file=...)\<close> for the class \<open>c\<close>.\<close>

definition new_line :: "line_class \<Rightarrow> (string, string) dict \<Rightarrow> string option \<Rightarrow> error + ASSLine" where
  "new_line c kw_fields src =
     (if c = DialogueLine_cls then DialogueLine_init kw_fields src else ASSLine_init c kw_fields src)"

subsection \<open>Three-way field merge: \<open>ASSLine.merge\<close>\<close>

text \<open>
  The dictionary comprehension
  \<open>{field: value for field, value in a.items() if value != parent[field]}\<close>.
\<close>

fun changed_loop ::
  "ASSLine \<Rightarrow> (string \<times> string) list \<Rightarrow> (string, string) dict \<Rightarrow> error + (string, string) dict"
where
  "changed_loop parent [] acc = Inr acc"
| "changed_loop parent ((field, value) # rest) acc =
     ebind (getitem parent field) (\<lambda>pv.
       changed_loop parent rest (if value \<noteq> pv then dict_set acc field value else acc))"

definition changed :: "ASSLine \<Rightarrow> ASSLine \<Rightarrow> error + (string, string) dict" where
  "changed a parent = ebind (items a) (\<lambda>its. changed_loop parent its [])"

text \<open>
  \<open>merge\<close> is a class method: \<open>c\<close> is the class it is called on. It returns \<open>None\<close> (the
  conflict outcome) when a field was changed on both sides, and otherwise the object the
  class constructs from \<open>{**parent, **changed_a, **changed_b}\<close>.
\<close>

definition merge :: "line_class \<Rightarrow> ASSLine \<Rightarrow> ASSLine \<Rightarrow> ASSLine \<Rightarrow> error + ASSLine option" where
  "merge c a parent b =
     ebind (changed a parent) (\<lambda>changed_a.
     ebind (changed b parent) (\<lambda>changed_b.
       if card (set (dict_keys changed_a) \<inter> set (dict_keys changed_b)) > 0 then Inr None
       else
         ebind (items parent) (\<lambda>parent_items.
         ebind (new_line c (dict_update (dict_update (dict_of parent_items) changed_a) changed_b)
                  (Some ''?'')) (\<lambda>line. Inr (Some line)))))"

text \<open>
  Vocabulary for the statements. \<open>field_names\<close> is the key set of a line and
  \<open>field_map\<close> the mapping the line shows: its fields, with the text of a
  \<open>DialogueLine\<close> that has references shown behind them. Three lines are of the same
  kind when they carry the same field names, \<open>Type\<close> among them. \<open>differing a parent\<close>
  is the set of fields that \<open>a\<close> shows with another value than the parent.
\<close>

definition field_names :: "ASSLine \<Rightarrow> string set" where
  "field_names self = set (dict_keys (fields_dict self))"

definition field_map :: "ASSLine \<Rightarrow> string \<rightharpoonup> string" where
  "field_map self =
     (if class_of self = DialogueLine_cls \<and> extra_indices self \<noteq> [] then
        (case map_of (fields_dict self) ''Text'' of
           None \<Rightarrow> map_of (fields_dict self)
         | Some t \<Rightarrow>
             (map_of (fields_dict self))
               (''Text'' \<mapsto> ''{='' @ join ''='' (map str_int (extra_indices self)) @ ''}'' @ t))
      else map_of (fields_dict self))"

definition same_kind :: "ASSLine \<Rightarrow> ASSLine \<Rightarrow> ASSLine \<Rightarrow> bool" where
  "same_kind a parent b \<longleftrightarrow>
     ''Type'' \<in> field_names parent \<and>
     field_names a = field_names parent \<and> field_names b = field_names parent"

definition differing :: "ASSLine \<Rightarrow> ASSLine \<Rightarrow> string set" where
  "differing a parent = {f \<in> field_names a. field_map a f \<noteq> field_map parent f}"

section \<open>Dictionary lemmas\<close>

lemma ebind_Inr [simp]: "ebind (Inr x) f = f x"
  by (simp add: ebind_def)

lemma ebind_Inl [simp]: "ebind (Inl e) f = Inl e"
  by (simp add: ebind_def)

lemma ebind_eq_Inr_iff: "ebind m f = Inr y \<longleftrightarrow> (\<exists>x. m = Inr x \<and> f x = Inr y)"
  by (cases m) simp_all

lemma dict_get_set: "dict_get (dict_set d k v) k' = (if k' = k then Some v else dict_get d k')"
  by (simp add: dict_get_def dict_set_def update_conv')

lemma keys_dict_set: "set (dict_keys (dict_set d k v)) = insert k (set (dict_keys d))"
  by (auto simp: dict_keys_def dict_set_def update_keys)

lemma dict_get_update:
  "dict_get (dict_update d kvs) k =
     (case map_of (rev kvs) k of None \<Rightarrow> dict_get d k | Some v \<Rightarrow> Some v)"
proof (induction kvs arbitrary: d)
  case Nil
  show ?case by (simp add: dict_update_def)
next
  case (Cons kv kvs)
  obtain k' v' where kv: "kv = (k', v')" by (cases kv)
  have "dict_get (dict_update d (kv # kvs)) k = dict_get (dict_update (dict_set d k' v') kvs) k"
    by (simp add: dict_update_def kv)
  also have "\<dots> = (case map_of (rev kvs) k of None \<Rightarrow> dict_get (dict_set d k' v') k
                    | Some v \<Rightarrow> Some v)"
    by (rule Cons.IH)
  finally show ?case
    by (auto simp: kv dict_get_set map_add_def split: option.splits)
qed

lemma keys_dict_update:
  "set (dict_keys (dict_update d kvs)) = set (dict_keys d) \<union> fst ` set kvs"
proof (induction kvs arbitrary: d)
  case Nil
  show ?case by (simp add: dict_update_def)
next
  case (Cons kv kvs)
  obtain k' v' where kv: "kv = (k', v')" by (cases kv)
  have "dict_update d (kv # kvs) = dict_update (dict_set d k' v') kvs"
    by (simp add: dict_update_def kv)
  then show ?case
    using Cons.IH [of "dict_set d k' v'"] by (auto simp: kv keys_dict_set)
qed

lemma dict_get_None_iff: "dict_get d k = None \<longleftrightarrow> k \<notin> set (dict_keys d)"
  by (simp add: dict_get_def dict_keys_def map_of_eq_None_iff)

section \<open>Field merge: auxiliary facts\<close>

lemma field_map_None_iff: "field_map self k = None \<longleftrightarrow> k \<notin> field_names self"
  by (auto simp: field_map_def field_names_def dict_keys_def map_of_eq_None_iff
      split: option.splits dest: map_of_SomeD intro: rev_image_eqI)

lemma getattr_field_map:
  "getattr self k = (case field_map self k of None \<Rightarrow> Inl KeyError | Some v \<Rightarrow> Inr v)"
  by (auto simp: getattr_def Text_def field_map_def dict_get_def split: option.splits)

lemma field_map_plain:
  "class_of self \<noteq> DialogueLine_cls \<or> extra_indices self = [] \<Longrightarrow>
   field_map self = map_of (fields_dict self)"
  by (auto simp: field_map_def)

lemma items_of_ok:
  "set keys \<subseteq> field_names self \<Longrightarrow>
   items_of self keys = Inr (map (\<lambda>k. (k, the (field_map self k))) keys)"
proof (induction keys)
  case Nil
  show ?case by simp
next
  case (Cons k keys)
  then have "k \<in> field_names self" by simp
  then obtain v where "field_map self k = Some v"
    using field_map_None_iff [of self k] by (cases "field_map self k") auto
  with Cons show ?case by (simp add: getitem_def getattr_field_map)
qed

lemma items_ok:
  "''Type'' \<in> field_names self \<Longrightarrow>
   items self = Inr (map (\<lambda>k. (k, the (field_map self k))) (iter_line self))"
  unfolding items_def by (rule items_of_ok) (auto simp: iter_line_def field_names_def)

lemma set_iter_line: "''Type'' \<in> field_names self \<Longrightarrow> set (iter_line self) = field_names self"
  by (auto simp: iter_line_def field_names_def)

lemma set_dict_set:
  "(k', v') \<in> set (dict_set d k v) \<Longrightarrow> (k', v') = (k, v) \<or> (k', v') \<in> set d"
  unfolding dict_set_def by (induction d) (auto split: if_splits)

lemma changed_loop_ok:
  assumes "set keys \<subseteq> field_names parent" "set keys \<subseteq> field_names a"
  shows "\<exists>c. changed_loop parent (map (\<lambda>k. (k, the (field_map a k))) keys) acc = Inr c \<and>
     set (dict_keys c) = set (dict_keys acc) \<union>
        {k \<in> set keys. field_map a k \<noteq> field_map parent k} \<and>
     (\<forall>k v. (k, v) \<in> set c \<longrightarrow> (k, v) \<in> set acc \<or> field_map a k = Some v)"
  using assms
proof (induction keys arbitrary: acc)
  case Nil
  show ?case by simp
next
  case (Cons k keys)
  have kp: "k \<in> field_names parent" and ka: "k \<in> field_names a"
    using Cons.prems by simp_all
  obtain pv where pv: "field_map parent k = Some pv"
    using kp field_map_None_iff [of parent k] by (cases "field_map parent k") auto
  obtain av where av: "field_map a k = Some av"
    using ka field_map_None_iff [of a k] by (cases "field_map a k") auto
  let ?acc' = "if av \<noteq> pv then dict_set acc k av else acc"
  from Cons.IH [of ?acc'] Cons.prems obtain c where
    c: "changed_loop parent (map (\<lambda>k. (k, the (field_map a k))) keys) ?acc' = Inr c"
      "set (dict_keys c) = set (dict_keys ?acc') \<union>
        {k \<in> set keys. field_map a k \<noteq> field_map parent k}"
      "\<forall>k v. (k, v) \<in> set c \<longrightarrow> (k, v) \<in> set ?acc' \<or> field_map a k = Some v"
    by auto
  have step: "changed_loop parent (map (\<lambda>k. (k, the (field_map a k))) (k # keys)) acc = Inr c"
    using c(1) by (simp add: getitem_def getattr_field_map pv av)
  have sub: "\<And>k' v'. (k', v') \<in> set ?acc' \<Longrightarrow> (k', v') \<in> set acc \<or> field_map a k' = Some v'"
    using set_dict_set [of _ _ acc k av] av by (auto split: if_splits)
  have keys: "set (dict_keys ?acc') = set (dict_keys acc) \<union> {k'. k' = k \<and> av \<noteq> pv}"
    by (auto simp: keys_dict_set)
  have "set (dict_keys c) = set (dict_keys acc) \<union>
        {k' \<in> set (k # keys). field_map a k' \<noteq> field_map parent k'}"
    unfolding c(2) keys using pv av by auto
  moreover have "\<forall>k v. (k, v) \<in> set c \<longrightarrow> (k, v) \<in> set acc \<or> field_map a k = Some v"
    using c(3) sub by blast
  ultimately show ?case using step by blast
qed

lemma changed_ok:
  assumes "''Type'' \<in> field_names parent" "field_names a = field_names parent"
  shows "\<exists>c. changed a parent = Inr c \<and> set (dict_keys c) = differing a parent \<and>
     (\<forall>k v. (k, v) \<in> set c \<longrightarrow> field_map a k = Some v)"
proof -
  have ta: "''Type'' \<in> field_names a" using assms by simp
  have s: "set (iter_line a) = field_names a" using ta by (rule set_iter_line)
  have sub: "set (iter_line a) \<subseteq> field_names parent" "set (iter_line a) \<subseteq> field_names a"
    using s assms by simp_all
  from changed_loop_ok [OF sub, of "[]"] obtain c where
    cc: "changed_loop parent (map (\<lambda>k. (k, the (field_map a k))) (iter_line a)) [] = Inr c \<and>
       set (dict_keys c) = set (dict_keys ([] :: (string, string) dict)) \<union>
          {k \<in> set (iter_line a). field_map a k \<noteq> field_map parent k} \<and>
       (\<forall>k v. (k, v) \<in> set c \<longrightarrow> (k, v) \<in> set ([] :: (string \<times> string) list) \<or> field_map a k = Some v)"
    by (rule exE)
  note c = conjunct1 [OF cc] conjunct1 [OF conjunct2 [OF cc]] conjunct2 [OF conjunct2 [OF cc]]
  have "changed a parent = Inr c"
    using c(1) by (simp add: changed_def items_ok [OF ta])
  moreover have "set (dict_keys c) = differing a parent"
    using c(2) s by (simp add: differing_def dict_keys_def)
  ultimately show ?thesis using c(3) by auto
qed

lemma dict_get_Nil [simp]: "dict_get [] k = None"
  by (simp add: dict_get_def)

lemma map_of_rev_keyed:
  "map_of (rev (map (\<lambda>k. (k, f k)) ks)) k = (if k \<in> set ks then Some (f k) else None)"
  by (induction ks) (auto simp: map_add_def split: option.splits)

lemma dict_of_items:
  assumes "''Type'' \<in> field_names parent"
  shows "\<exists>its. items parent = Inr its \<and> dict_get (dict_of its) = field_map parent"
proof -
  let ?its = "map (\<lambda>k. (k, the (field_map parent k))) (iter_line parent)"
  have "dict_get (dict_of ?its) k = field_map parent k" for k
  proof (cases "k \<in> field_names parent")
    case True
    then obtain v where "field_map parent k = Some v"
      using field_map_None_iff [of parent k] by (cases "field_map parent k") auto
    then show ?thesis
      using True set_iter_line [OF assms]
      by (simp add: dict_of_def dict_get_update map_of_rev_keyed)
  next
    case False
    then have "field_map parent k = None"
      using field_map_None_iff [of parent k] by simp
    then show ?thesis
      using False set_iter_line [OF assms]
      by (simp add: dict_of_def dict_get_update map_of_rev_keyed)
  qed
  then show ?thesis using items_ok [OF assms] by auto
qed

lemma dict_get_update_changed:
  assumes "\<forall>k v. (k, v) \<in> set c \<longrightarrow> g k = Some v"
  shows "dict_get (dict_update d c) k = (if k \<in> set (dict_keys c) then g k else dict_get d k)"
proof (cases "map_of (rev c) k")
  case None
  then have "k \<notin> set (dict_keys c)"
    by (simp add: map_of_eq_None_iff dict_keys_def)
  with None show ?thesis by (simp add: dict_get_update)
next
  case (Some v)
  then have "(k, v) \<in> set c" using map_of_SomeD by fastforce
  then have "g k = Some v" "k \<in> set (dict_keys c)"
    using assms by (auto simp: dict_keys_def intro: rev_image_eqI)
  with Some show ?thesis by (simp add: dict_get_update)
qed




lemma merge_overlap:
  assumes "same_kind a parent b"
    and "differing a parent \<inter> differing b parent \<noteq> {}"
  shows "merge c a parent b = Inr None"
proof -
  have t: "''Type'' \<in> field_names parent" and fa: "field_names a = field_names parent"
    and fb: "field_names b = field_names parent"
    using assms(1) by (simp_all add: same_kind_def)
  from changed_ok [OF t fa] obtain ca where
    ca: "changed a parent = Inr ca" "set (dict_keys ca) = differing a parent" by blast
  from changed_ok [OF t fb] obtain cb where
    cb: "changed b parent = Inr cb" "set (dict_keys cb) = differing b parent" by blast
  have "set (dict_keys ca) \<inter> set (dict_keys cb) \<noteq> {}"
    using assms(2) ca(2) cb(2) by simp
  then have "card (set (dict_keys ca) \<inter> set (dict_keys cb)) > 0"
    by (simp add: card_gt_0_iff)
  then show ?thesis by (simp add: merge_def ca(1) cb(1))
qed

section \<open>Field merge: the claims\<close>

text \<open>
  An event line as the parser builds it from its ten comma-separated fields, when the
  text has no reference group in front.
\<close>

definition event_fields :: "string \<Rightarrow> string \<Rightarrow> string \<Rightarrow> (string, string) dict" where
  "event_fields start stop txt =
     [(''Layer'', ''0''), (''Start'', start), (''End'', stop), (''Style'', ''Default''),
      (''Name'', ''''), (''MarginL'', ''0''), (''MarginR'', ''0''), (''MarginV'', ''0''),
      (''Effect'', ''''), (''Text'', txt), (''Type'', ''Dialogue'')]"

definition event :: "string \<Rightarrow> string \<Rightarrow> string \<Rightarrow> ASSLine" where
  "event start stop txt =
     \<lparr>class_of = DialogueLine_cls, fields_dict = event_fields start stop txt,
      source_file = None, extra_indices = []\<rparr>"

lemma same_kind_event: "same_kind (event s1 e1 t1) (event s2 e2 t2) (event s3 e3 t3)"
  by (simp add: same_kind_def field_names_def dict_keys_def event_def event_fields_def)

lemma differing_code:
  "differing a p =
     set (filter (\<lambda>f. field_map a f \<noteq> field_map p f) (dict_keys (fields_dict a)))"
  by (auto simp: differing_def field_names_def)


text \<open>
  Claim C1. For lines of the same kind, the field merge returns the conflict outcome
  whenever some field differs from the ancestor on both sides, on whatever class the
  merge is called. Nothing is asked of the new values: two sides that set a field to the
  same new value conflict as well.
\<close>

theorem merge_conflict_on_overlap:
  assumes "same_kind a parent b"
    and "differing a parent \<inter> differing b parent \<noteq> {}"
  shows "merge c a parent b = Inr None"
  using assms by (rule merge_overlap)

theorem merge_conflict_on_overlap_witness:
  "same_kind (event ''1'' ''2'' ''new'') (event ''1'' ''2'' ''old'') (event ''1'' ''2'' ''new'') \<and>
   differing (event ''1'' ''2'' ''new'') (event ''1'' ''2'' ''old'') = {''Text''} \<and>
   merge DialogueLine_cls (event ''1'' ''2'' ''new'') (event ''1'' ''2'' ''old'')
     (event ''1'' ''2'' ''new'') = Inr None"
proof -
  have d: "differing (event ''1'' ''2'' ''new'') (event ''1'' ''2'' ''old'') = {''Text''}"
    by (simp add: differing_code event_def event_fields_def dict_keys_def field_map_def)
  have i: "differing (event ''1'' ''2'' ''new'') (event ''1'' ''2'' ''old'') \<inter>
     differing (event ''1'' ''2'' ''new'') (event ''1'' ''2'' ''old'') \<noteq> {}"
    unfolding d by simp
  have s: "same_kind (event ''1'' ''2'' ''new'') (event ''1'' ''2'' ''old'') (event ''1'' ''2'' ''new'')"
    by (rule same_kind_event)
  show ?thesis
    using merge_conflict_on_overlap [OF s i, of DialogueLine_cls] s d by (intro conjI)
qed

subsection \<open>Disjoint changes\<close>
















section \<open>Key/value sections: \<open>merge_keyval\<close>\<close>

text \<open>
  \<open>lines_to_map\<close>: the \<open>OrderedDict\<close> of \<open>(line.Type, line.Value)\<close> over the lines of a
  section; a later line with the same key replaces the value and keeps the position.
\<close>

fun lines_to_map ::
  "ASSLine list \<Rightarrow> (string, string) dict \<Rightarrow> error + (string, string) dict"
where
  "lines_to_map [] acc = Inr acc"
| "lines_to_map (line # lines) acc =
     ebind (getattr line ''Type'') (\<lambda>k.
     ebind (getattr line ''Value'') (\<lambda>v. lines_to_map lines (dict_set acc k v)))"

text \<open>
  The entries of one side that are new or differ from the ancestor's, and the ancestor's
  keys one side no longer has. The source keeps the removed keys in a set; they are
  only popped, one by one, so the order in which the set yields them has no effect.
\<close>

definition kv_changed ::
  "(string, string) dict \<Rightarrow> (string, string) dict \<Rightarrow> (string, string) dict" where
  "kv_changed side_map o_map =
     dict_of (filter (\<lambda>(key, v). dict_get o_map key = None \<or> dict_get o_map key \<noteq> Some v)
                side_map)"

definition kv_removed :: "(string, string) dict \<Rightarrow> (string, string) dict \<Rightarrow> string list" where
  "kv_removed side_map o_map = filter (\<lambda>key. dict_get side_map key = None) (dict_keys o_map)"

definition pop_all :: "string list \<Rightarrow> (string, string) dict \<Rightarrow> (string, string) dict" where
  "pop_all removed m = fold (\<lambda>key acc. dict_pop acc key) removed m"

text \<open>
  The merged map: the side that is not preferred is applied to the ancestor's map
  first, the preferred side second. \<open>script_info\<close> is the command-line option
  (\<open>ours\<close> or \<open>theirs\<close>).
\<close>

definition merge_keyval_map ::
  "string \<Rightarrow> (string, string) dict \<Rightarrow> (string, string) dict \<Rightarrow> (string, string) dict
     \<Rightarrow> (string, string) dict"
where
  "merge_keyval_map script_info a_map o_map b_map =
     (let a_changed = kv_changed a_map o_map;
          a_removed = kv_removed a_map o_map;
          b_changed = kv_changed b_map o_map;
          b_removed = kv_removed b_map o_map;
          (first_removed, first_changed, second_removed, second_changed) =
            (if script_info = ''ours'' then (b_removed, b_changed, a_removed, a_changed)
             else (a_removed, a_changed, b_removed, b_changed))
      in dict_update (pop_all second_removed (dict_update (pop_all first_removed o_map) first_changed))
           second_changed)"

text \<open>
  \<open>KeyValueLine(fields={"Type": key, "Value": value})\<close>: the class allows every line
  type, so the constructor returns the line.
\<close>

definition KeyValueLine :: "string \<times> string \<Rightarrow> ASSLine" where
  "KeyValueLine kv =
     \<lparr>class_of = KeyValueLine_cls, fields_dict = [(''Type'', fst kv), (''Value'', snd kv)],
      source_file = None, extra_indices = []\<rparr>"

definition merge_keyval ::
  "string \<Rightarrow> ASSLine list \<Rightarrow> ASSLine list \<Rightarrow> ASSLine list \<Rightarrow> error + ASSLine list"
where
  "merge_keyval script_info A O' B =
     ebind (lines_to_map A []) (\<lambda>a_map.
     ebind (lines_to_map O' []) (\<lambda>o_map.
     ebind (lines_to_map B []) (\<lambda>b_map.
       Inr (map KeyValueLine (merge_keyval_map script_info a_map o_map b_map)))))"

lemma KeyValueLine_new:
  "new_line KeyValueLine_cls [(''Type'', key), (''Value'', v)] None = Inr (KeyValueLine (key, v))"
  by (simp add: new_line_def ASSLine_init_def KeyValueLine_def)

lemma distinct_dict_update:
  "distinct (dict_keys d) \<Longrightarrow> distinct (dict_keys (dict_update d kvs))"
proof (induction kvs arbitrary: d)
  case Nil
  then show ?case by (simp add: dict_update_def)
next
  case (Cons kv kvs)
  obtain k v where kv: "kv = (k, v)" by (cases kv)
  have "distinct (dict_keys (dict_set d k v))"
    using Cons.prems by (simp add: dict_keys_def dict_set_def distinct_update)
  from Cons.IH [OF this] show ?case by (simp add: dict_update_def kv)
qed

lemma distinct_kv_changed: "distinct (dict_keys (kv_changed m o_map))"
  unfolding kv_changed_def dict_of_def by (rule distinct_dict_update) (simp add: dict_keys_def)

lemma dict_get_update_distinct:
  assumes "distinct (dict_keys c)"
  shows "dict_get (dict_update d c) k = (case dict_get c k of None \<Rightarrow> dict_get d k | Some v \<Rightarrow> Some v)"
proof -
  have "\<forall>k v. (k, v) \<in> set c \<longrightarrow> dict_get c k = Some v"
    using assms by (simp add: dict_get_def dict_keys_def)
  from dict_get_update_changed [OF this, of d k] show ?thesis
    using dict_get_None_iff [of c k] by (cases "dict_get c k") auto
qed

text \<open>
  Claim C8. A key that both sides changed relative to the ancestor, to different
  values, holds the preferred side's value in the merged map: local's under \<open>ours\<close>,
  remote's otherwise, since the preferred side's updates are the last to be applied.
\<close>

theorem merge_keyval_preferred_wins:
  assumes "lines_to_map A [] = Inr a_map" "lines_to_map O' [] = Inr o_map"
    and "lines_to_map B [] = Inr b_map"
    and "dict_get (kv_changed a_map o_map) key = Some va"
    and "dict_get (kv_changed b_map o_map) key = Some vb"
    and "va \<noteq> vb"
  shows "merge_keyval script_info A O' B
           = Inr (map KeyValueLine (merge_keyval_map script_info a_map o_map b_map)) \<and>
         dict_get (merge_keyval_map script_info a_map o_map b_map) key
           = Some (if script_info = ''ours'' then va else vb)"
proof -
  have "merge_keyval script_info A O' B
          = Inr (map KeyValueLine (merge_keyval_map script_info a_map o_map b_map))"
    by (simp add: merge_keyval_def assms(1,2,3))
  moreover have "dict_get (merge_keyval_map script_info a_map o_map b_map) key
           = Some (if script_info = ''ours'' then va else vb)"
    using assms(4,5)
    by (simp add: merge_keyval_map_def Let_def dict_get_update_distinct [OF distinct_kv_changed])
  ultimately show ?thesis by simp
qed

theorem merge_keyval_preferred_wins_witness:
  "lines_to_map [KeyValueLine (''Title'', ''Mine'')] [] = Inr [(''Title'', ''Mine'')] \<and>
   lines_to_map [KeyValueLine (''Title'', ''Old'')] [] = Inr [(''Title'', ''Old'')] \<and>
   lines_to_map [KeyValueLine (''Title'', ''Theirs'')] [] = Inr [(''Title'', ''Theirs'')] \<and>
   dict_get (kv_changed [(''Title'', ''Mine'')] [(''Title'', ''Old'')]) ''Title'' = Some ''Mine'' \<and>
   dict_get (kv_changed [(''Title'', ''Theirs'')] [(''Title'', ''Old'')]) ''Title'' = Some ''Theirs'' \<and>
   merge_keyval ''theirs'' [KeyValueLine (''Title'', ''Mine'')] [KeyValueLine (''Title'', ''Old'')]
       [KeyValueLine (''Title'', ''Theirs'')]
     = Inr (map KeyValueLine (merge_keyval_map ''theirs'' [(''Title'', ''Mine'')]
              [(''Title'', ''Old'')] [(''Title'', ''Theirs'')])) \<and>
   dict_get (merge_keyval_map ''theirs'' [(''Title'', ''Mine'')] [(''Title'', ''Old'')]
       [(''Title'', ''Theirs'')]) ''Title'' = Some ''Theirs''"
proof -
  have a: "lines_to_map [KeyValueLine (''Title'', ''Mine'')] [] = Inr [(''Title'', ''Mine'')]"
    by (simp add: KeyValueLine_def getattr_def dict_get_def dict_set_def)
  have o: "lines_to_map [KeyValueLine (''Title'', ''Old'')] [] = Inr [(''Title'', ''Old'')]"
    by (simp add: KeyValueLine_def getattr_def dict_get_def dict_set_def)
  have b: "lines_to_map [KeyValueLine (''Title'', ''Theirs'')] [] = Inr [(''Title'', ''Theirs'')]"
    by (simp add: KeyValueLine_def getattr_def dict_get_def dict_set_def)
  have ca: "dict_get (kv_changed [(''Title'', ''Mine'')] [(''Title'', ''Old'')]) ''Title'' = Some ''Mine''"
    by (simp add: kv_changed_def dict_of_def dict_update_def dict_get_def dict_set_def)
  have cb: "dict_get (kv_changed [(''Title'', ''Theirs'')] [(''Title'', ''Old'')]) ''Title''
              = Some ''Theirs''"
    by (simp add: kv_changed_def dict_of_def dict_update_def dict_get_def dict_set_def)
  have ne: "''Mine'' \<noteq> ''Theirs''" by simp
  have th: "''theirs'' \<noteq> ''ours''" by simp
  show ?thesis
    using merge_keyval_preferred_wins [OF a o b ca cb ne, of "''theirs''"] a o b ca cb th
    by (simp del: lines_to_map.simps)
qed

section \<open>Side table: \<open>merge_extradata\<close>\<close>

text \<open>
  A \<open>DataLine\<close> is read through \<open>Id\<close>, \<open>Key\<close> and \<open>Value\<close>; its \<open>Id\<close> is an integer
  that reconciliation reassigns. The events of a file are \<open>DialogueLine\<close> objects, each
  with the list \<open>extra_indices\<close> of the side-table ids its text refers to. A parsed file
  gives the lines of its \<open>Aegisub Extradata\<close> and \<open>Events\<close> sections (empty when the
  section is absent).
\<close>

record DataLine =
  Id' :: int
  Key :: string
  Value :: string

record ass_file =
  Aegisub_Extradata :: "DataLine list"
  Events :: "ASSLine list"

text \<open>The three variables the function keeps across the files.\<close>

record tables =
  extradata_to_id :: "(string \<times> string, int) dict"
  id_to_extradata :: "(int, DataLine) dict"
  largest_id :: int

text \<open>
  The body of the loop over the data lines of one file: the tables, the file's
  \<open>id_map\<close> and the line itself are updated.
\<close>

definition register_line ::
  "tables \<Rightarrow> (int, int) dict \<Rightarrow> DataLine \<Rightarrow> tables \<times> (int, int) dict \<times> DataLine"
where
  "register_line t id_map data_line =
     (let original_id = Id' data_line in
      case dict_get (extradata_to_id t) (Key data_line, Value data_line) of
        Some i \<Rightarrow>
          (t, dict_set id_map original_id i, data_line\<lparr>Id' := i\<rparr>)
      | None \<Rightarrow>
          (let data_line' =
                 (if dict_get (id_to_extradata t) (Id' data_line) \<noteq> None
                  then data_line\<lparr>Id' := largest_id t + 1\<rparr> else data_line);
               t' = \<lparr>extradata_to_id =
                        dict_set (extradata_to_id t) (Key data_line', Value data_line') (Id' data_line'),
                     id_to_extradata = dict_set (id_to_extradata t) (Id' data_line') data_line',
                     largest_id = max (largest_id t) (Id' data_line')\<rparr>
           in (t', dict_set id_map original_id (Id' data_line'), data_line')))"

fun register_lines ::
  "tables \<Rightarrow> (int, int) dict \<Rightarrow> DataLine list \<Rightarrow> tables \<times> (int, int) dict \<times> DataLine list"
where
  "register_lines t id_map [] = (t, id_map, [])"
| "register_lines t id_map (data_line # rest) =
     (case register_line t id_map data_line of
        (t', id_map', data_line') \<Rightarrow>
          (case register_lines t' id_map' rest of
             (t'', id_map'', rest') \<Rightarrow> (t'', id_map'', data_line' # rest')))"

text \<open>\<open>[id_map[i] for i in dialogue_line.extra_indices if i in id_map]\<close>\<close>

definition remap :: "(int, int) dict \<Rightarrow> int list \<Rightarrow> int list" where
  "remap id_map indices = List.map_filter (dict_get id_map) indices"

text \<open>One round of the loop over the files; the file's final \<open>id_map\<close> is returned too.\<close>

definition reconcile_file :: "tables \<Rightarrow> ass_file \<Rightarrow> tables \<times> ass_file \<times> (int, int) dict" where
  "reconcile_file t f =
     (case register_lines t [] (Aegisub_Extradata f) of
        (t', id_map, lines') \<Rightarrow>
          (t',
           \<lparr>Aegisub_Extradata = lines',
            Events = map (\<lambda>dialogue_line.
                       dialogue_line\<lparr>extra_indices := remap id_map (extra_indices dialogue_line)\<rparr>)
                     (Events f)\<rparr>,
           id_map))"

text \<open>
  \<open>merge_extradata\<close> works through parent, mine and their, in that order, and returns
  the registered lines by increasing id. The files are changed in place: the model
  returns them after the table.
\<close>

definition merge_extradata ::
  "ass_file \<Rightarrow> ass_file \<Rightarrow> ass_file \<Rightarrow> DataLine list \<times> ass_file \<times> ass_file \<times> ass_file"
where
  "merge_extradata mine parent their =
     (case reconcile_file \<lparr>extradata_to_id = [], id_to_extradata = [], largest_id = 0\<rparr> parent of
        (t1, parent', _) \<Rightarrow>
     (case reconcile_file t1 mine of
        (t2, mine', _) \<Rightarrow>
     (case reconcile_file t2 their of
        (t3, their', _) \<Rightarrow>
          (List.map_filter (dict_get (id_to_extradata t3)) (sort (dict_keys (id_to_extradata t3))),
           mine', parent', their'))))"

text \<open>
  What the tables satisfy between two data lines: the registered ids are distinct,
  each registered line sits under its own id, its content maps back to that id, no id
  exceeds \<open>largest_id\<close>, and every content that has an id is the content of the line
  registered under it.
\<close>

definition tables_inv :: "tables \<Rightarrow> bool" where
  "tables_inv t \<longleftrightarrow>
     distinct (dict_keys (id_to_extradata t)) \<and>
     (\<forall>i d. dict_get (id_to_extradata t) i = Some d \<longrightarrow>
        Id' d = i \<and> i \<le> largest_id t \<and> dict_get (extradata_to_id t) (Key d, Value d) = Some i) \<and>
     (\<forall>c i. dict_get (extradata_to_id t) c = Some i \<longrightarrow>
        (\<exists>d. dict_get (id_to_extradata t) i = Some d \<and> (Key d, Value d) = c))"

definition tables_le :: "tables \<Rightarrow> tables \<Rightarrow> bool" where
  "tables_le t t' \<longleftrightarrow>
     (\<forall>c i. dict_get (extradata_to_id t) c = Some i \<longrightarrow> dict_get (extradata_to_id t') c = Some i) \<and>
     (\<forall>i d. dict_get (id_to_extradata t) i = Some d \<longrightarrow> dict_get (id_to_extradata t') i = Some d)"

definition id_map_inv :: "tables \<Rightarrow> (int, int) dict \<Rightarrow> bool" where
  "id_map_inv t id_map \<longleftrightarrow>
     (\<forall>k v. dict_get id_map k = Some v \<longrightarrow> dict_get (id_to_extradata t) v \<noteq> None)"

lemma tables_le_refl: "tables_le t t"
  by (simp add: tables_le_def)

lemma tables_le_trans: "tables_le t t' \<Longrightarrow> tables_le t' t'' \<Longrightarrow> tables_le t t''"
  by (simp add: tables_le_def)

lemma id_map_inv_mono: "id_map_inv t m \<Longrightarrow> tables_le t t' \<Longrightarrow> id_map_inv t' m"
  unfolding id_map_inv_def tables_le_def by (metis not_Some_eq)

lemma distinct_dict_set: "distinct (dict_keys d) \<Longrightarrow> distinct (dict_keys (dict_set d k v))"
  by (simp add: dict_keys_def dict_set_def distinct_update)

lemma register_line_seen:
  assumes "dict_get (extradata_to_id t) (Key dl, Value dl) = Some i"
  shows "register_line t m dl = (t, dict_set m (Id' dl) i, dl\<lparr>Id' := i\<rparr>)"
  using assms by (simp add: register_line_def Let_def)

lemma register_line_new:
  assumes "dict_get (extradata_to_id t) (Key dl, Value dl) = None" and inv: "tables_inv t"
  shows "\<exists>n. dict_get (id_to_extradata t) n = None \<and>
     (n = Id' dl \<or> n = largest_id t + 1) \<and>
     register_line t m dl =
       (\<lparr>extradata_to_id = dict_set (extradata_to_id t) (Key dl, Value dl) n,
         id_to_extradata = dict_set (id_to_extradata t) n (dl\<lparr>Id' := n\<rparr>),
         largest_id = max (largest_id t) n\<rparr>,
        dict_set m (Id' dl) n, dl\<lparr>Id' := n\<rparr>)"
proof (cases "dict_get (id_to_extradata t) (Id' dl) = None")
  case True
  then show ?thesis using assms(1) by (intro exI [of _ "Id' dl"]) (simp add: register_line_def Let_def)
next
  case False
  have "dict_get (id_to_extradata t) (largest_id t + 1) = None"
  proof (rule ccontr)
    assume "dict_get (id_to_extradata t) (largest_id t + 1) \<noteq> None"
    then obtain d where "dict_get (id_to_extradata t) (largest_id t + 1) = Some d" by auto
    then have "largest_id t + 1 \<le> largest_id t" using inv unfolding tables_inv_def by blast
    then show False by simp
  qed
  then show ?thesis using assms(1) False
    by (intro exI [of _ "largest_id t + 1"]) (simp add: register_line_def Let_def)
qed

lemma register_line_step:
  assumes inv: "tables_inv t" and mi: "id_map_inv t m"
    and reg: "register_line t m dl = (t', m', dl')"
  shows "tables_inv t' \<and> tables_le t t' \<and> id_map_inv t' m' \<and>
         Key dl' = Key dl \<and> Value dl' = Value dl \<and>
         dict_get (extradata_to_id t') (Key dl, Value dl) = Some (Id' dl') \<and>
         dict_get m' (Id' dl) = Some (Id' dl') \<and>
         (\<forall>k. k \<noteq> Id' dl \<longrightarrow> dict_get m' k = dict_get m k)"
proof (cases "dict_get (extradata_to_id t) (Key dl, Value dl)")
  case (Some i)
  from register_line_seen [OF Some, of m] reg
  have eq: "t' = t" "m' = dict_set m (Id' dl) i" "dl' = dl\<lparr>Id' := i\<rparr>" by simp_all
  obtain d where "dict_get (id_to_extradata t) i = Some d"
    using inv Some unfolding tables_inv_def by blast
  then have "id_map_inv t (dict_set m (Id' dl) i)"
    using mi by (simp add: id_map_inv_def dict_get_set)
  then show ?thesis
    using inv Some by (simp add: eq tables_le_refl dict_get_set)
next
  case None
  from register_line_new [OF None inv, of m] reg obtain n where
    n: "dict_get (id_to_extradata t) n = None"
    and eq: "t' = \<lparr>extradata_to_id = dict_set (extradata_to_id t) (Key dl, Value dl) n,
         id_to_extradata = dict_set (id_to_extradata t) n (dl\<lparr>Id' := n\<rparr>),
         largest_id = max (largest_id t) n\<rparr>"
        "m' = dict_set m (Id' dl) n" "dl' = dl\<lparr>Id' := n\<rparr>"
    by auto
  have le: "tables_le t t'"
    using None n by (auto simp: tables_le_def eq dict_get_set)
  have i1: "distinct (dict_keys (id_to_extradata t'))"
    using inv by (simp add: eq tables_inv_def distinct_dict_set)
  have i2: "Id' d = i \<and> i \<le> largest_id t' \<and> dict_get (extradata_to_id t') (Key d, Value d) = Some i"
    if "dict_get (id_to_extradata t') i = Some d" for i d
  proof (cases "i = n")
    case True
    with that have "d = dl\<lparr>Id' := n\<rparr>" by (simp add: eq dict_get_set)
    with True show ?thesis by (simp add: eq dict_get_set)
  next
    case False
    with that have old: "dict_get (id_to_extradata t) i = Some d" by (simp add: eq dict_get_set)
    then have "Id' d = i" "i \<le> largest_id t"
      "dict_get (extradata_to_id t) (Key d, Value d) = Some i"
      using inv unfolding tables_inv_def by blast+
    moreover from this(3) None have "(Key d, Value d) \<noteq> (Key dl, Value dl)" by auto
    ultimately show ?thesis by (auto simp: eq dict_get_set)
  qed
  have i3: "\<exists>d. dict_get (id_to_extradata t') i = Some d \<and> (Key d, Value d) = c"
    if "dict_get (extradata_to_id t') c = Some i" for c i
  proof (cases "c = (Key dl, Value dl)")
    case True
    with that show ?thesis by (simp add: eq dict_get_set)
  next
    case False
    with that have "dict_get (extradata_to_id t) c = Some i" by (simp add: eq dict_get_set)
    then obtain d where d: "dict_get (id_to_extradata t) i = Some d" "(Key d, Value d) = c"
      using inv unfolding tables_inv_def by blast
    with n have "i \<noteq> n" by auto
    with d show ?thesis by (simp add: eq dict_get_set)
  qed
  have inv': "tables_inv t'"
    unfolding tables_inv_def using i1 i2 i3 by blast
  have "id_map_inv t' m"
    using mi le by (rule id_map_inv_mono)
  then have mi': "id_map_inv t' m'"
    by (simp add: id_map_inv_def eq(2) dict_get_set) (simp add: eq(1) dict_get_set)
  show ?thesis
    using inv' le mi' by (simp add: eq dict_get_set)
qed

lemma register_lines_step:
  assumes "tables_inv t" "id_map_inv t m" "register_lines t m ls = (t', m', ls')"
  shows "tables_inv t' \<and> tables_le t t' \<and> id_map_inv t' m' \<and>
         map Key ls' = map Key ls \<and> map Value ls' = map Value ls \<and>
         (\<forall>d \<in> set ls'. dict_get (extradata_to_id t') (Key d, Value d) = Some (Id' d)) \<and>
         m' = dict_update m (zip (map Id' ls) (map Id' ls'))"
  using assms
proof (induction ls arbitrary: t m ls' t' m')
  case Nil
  then show ?case by (simp add: tables_le_refl dict_update_def)
next
  case (Cons dl ls)
  obtain t1 m1 dl1 where r1: "register_line t m dl = (t1, m1, dl1)"
    by (cases "register_line t m dl")
  obtain t2 m2 ls2 where r2: "register_lines t1 m1 ls = (t2, m2, ls2)"
    by (cases "register_lines t1 m1 ls")
  have res: "t' = t2" "m' = m2" "ls' = dl1 # ls2"
    using Cons.prems(3) by (simp_all add: r1 r2)
  note s1 = register_line_step [OF Cons.prems(1,2) r1]
  have s2: "tables_inv t2 \<and> tables_le t1 t2 \<and> id_map_inv t2 m2 \<and>
         map Key ls2 = map Key ls \<and> map Value ls2 = map Value ls \<and>
         (\<forall>d \<in> set ls2. dict_get (extradata_to_id t2) (Key d, Value d) = Some (Id' d)) \<and>
         m2 = dict_update m1 (zip (map Id' ls) (map Id' ls2))"
    using Cons.IH [OF _ _ r2] s1 by blast
  have le: "tables_le t t2" using s1 s2 tables_le_trans by blast
  have c1: "dict_get (extradata_to_id t2) (Key dl1, Value dl1) = Some (Id' dl1)"
    using s1 s2 unfolding tables_le_def by metis
  have m1: "m1 = dict_set m (Id' dl) (Id' dl1)"
  proof (cases "dict_get (extradata_to_id t) (Key dl, Value dl)")
    case (Some i)
    from register_line_seen [OF Some, of m] r1 show ?thesis by auto
  next
    case None
    from register_line_new [OF None Cons.prems(1), of m] r1 show ?thesis by auto
  qed
  have a7: "m2 = dict_update m (zip (map Id' (dl # ls)) (map Id' (dl1 # ls2)))"
    using s2 by (simp add: dict_update_def m1)
  have a4: "map Key (dl1 # ls2) = map Key (dl # ls)" "map Value (dl1 # ls2) = map Value (dl # ls)"
    using s1 s2 by simp_all
  have a6: "\<forall>d \<in> set (dl1 # ls2). dict_get (extradata_to_id t2) (Key d, Value d) = Some (Id' d)"
    using c1 s2 by simp
  have a1: "tables_inv t2" "id_map_inv t2 m2" using s2 by blast+
  show ?case
    unfolding res using a1 le a4 a6 a7 by (intro conjI)
qed

definition table_of :: "tables \<Rightarrow> DataLine list" where
  "table_of t = List.map_filter (dict_get (id_to_extradata t)) (sort (dict_keys (id_to_extradata t)))"

lemma map_filter_present:
  "\<forall>k \<in> set ks. f k \<noteq> None \<Longrightarrow> List.map_filter f ks = map (\<lambda>k. the (f k)) ks"
  by (induction ks) (auto simp: List.map_filter_simps)

lemma table_of_inv:
  assumes "tables_inv t"
  shows "map Id' (table_of t) = sort (dict_keys (id_to_extradata t))"
    and "distinct (map Id' (table_of t))"
    and "distinct (map (\<lambda>d. (Key d, Value d)) (table_of t))"
    and "set (table_of t) = {d. \<exists>i. dict_get (id_to_extradata t) i = Some d}"
proof -
  let ?f = "dict_get (id_to_extradata t)"
  let ?ks = "sort (dict_keys (id_to_extradata t))"
  have pres: "\<forall>k \<in> set ?ks. ?f k \<noteq> None"
    by (simp add: dict_get_None_iff)
  have tab: "table_of t = map (\<lambda>k. the (?f k)) ?ks"
    unfolding table_of_def by (rule map_filter_present [OF pres])
  have idk: "Id' (the (?f k)) = k" if "k \<in> set ?ks" for k
  proof -
    from that pres obtain d where "?f k = Some d" by auto
    then show ?thesis using assms unfolding tables_inv_def by auto
  qed
  show ids: "map Id' (table_of t) = ?ks"
    unfolding tab map_map comp_def by (rule map_idI) (simp add: idk)
  have dk: "distinct ?ks" using assms by (simp add: tables_inv_def)
  show "distinct (map Id' (table_of t))" unfolding ids by (rule dk)
  have inj: "inj_on (\<lambda>k. (Key (the (?f k)), Value (the (?f k)))) (set ?ks)"
  proof (rule inj_onI)
    fix i j assume i: "i \<in> set ?ks" and j: "j \<in> set ?ks"
      and eq: "(Key (the (?f i)), Value (the (?f i))) = (Key (the (?f j)), Value (the (?f j)))"
    have "?f i \<noteq> None" "?f j \<noteq> None" using i j pres by blast+
    then obtain di dj where d: "?f i = Some di" "?f j = Some dj" by auto
    then have "dict_get (extradata_to_id t) (Key di, Value di) = Some i"
      "dict_get (extradata_to_id t) (Key dj, Value dj) = Some j"
      using assms unfolding tables_inv_def by blast+
    with eq d show "i = j" by simp
  qed
  show "distinct (map (\<lambda>d. (Key d, Value d)) (table_of t))"
    unfolding tab using dk inj by (simp add: distinct_map comp_def)
  show "set (table_of t) = {d. \<exists>i. ?f i = Some d}"
  proof (intro set_eqI iffI)
    fix d assume "d \<in> set (table_of t)"
    then obtain k where "k \<in> set ?ks" "d = the (?f k)" unfolding tab by auto
    with pres have "?f k = Some d" by auto
    then show "d \<in> {d. \<exists>i. ?f i = Some d}" by blast
  next
    fix d assume "d \<in> {d. \<exists>i. ?f i = Some d}"
    then obtain i where i: "?f i = Some d" by blast
    then have "i \<in> set ?ks" using dict_get_None_iff [of "id_to_extradata t" i] by auto
    with i show "d \<in> set (table_of t)" unfolding tab by force
  qed
qed

text \<open>
  The dictionary \<open>id_map\<close> of a file, read off the ids of its data lines before and
  after, and a file whose events went through \<open>remap\<close> with it.
\<close>

definition id_map_of :: "ass_file \<Rightarrow> ass_file \<Rightarrow> (int, int) dict" where
  "id_map_of f f' =
     dict_of (zip (map Id' (Aegisub_Extradata f)) (map Id' (Aegisub_Extradata f')))"

definition remapped :: "ass_file \<Rightarrow> ass_file \<Rightarrow> bool" where
  "remapped f f' \<longleftrightarrow>
     map Key (Aegisub_Extradata f') = map Key (Aegisub_Extradata f) \<and>
     map Value (Aegisub_Extradata f') = map Value (Aegisub_Extradata f) \<and>
     Events f' =
       map (\<lambda>l. l\<lparr>extra_indices := remap (id_map_of f f') (extra_indices l)\<rparr>) (Events f)"

lemma remap_range: "i \<in> set (remap m xs) \<Longrightarrow> \<exists>k. dict_get m k = Some i"
  unfolding remap_def by (induction xs) (auto simp: List.map_filter_simps split: option.splits)

lemma reconcile_file_step:
  assumes inv: "tables_inv t" and rec: "reconcile_file t f = (t', f', id_map)"
  shows "tables_inv t'" and "tables_le t t'"
    and "\<forall>d \<in> set (Aegisub_Extradata f').
           dict_get (extradata_to_id t') (Key d, Value d) = Some (Id' d)"
    and "remapped f f'"
    and "\<forall>l \<in> set (Events f'). \<forall>i \<in> set (extra_indices l).
           dict_get (id_to_extradata t') i \<noteq> None"
proof -
  obtain t1 m1 ls1 where r: "register_lines t [] (Aegisub_Extradata f) = (t1, m1, ls1)"
    by (cases "register_lines t [] (Aegisub_Extradata f)")
  have res: "t' = t1" "id_map = m1"
    "f' = \<lparr>Aegisub_Extradata = ls1,
           Events = map (\<lambda>l. l\<lparr>extra_indices := remap m1 (extra_indices l)\<rparr>) (Events f)\<rparr>"
    using rec by (auto simp: reconcile_file_def r)
  have mi: "id_map_inv t []" by (simp add: id_map_inv_def)
  note st = register_lines_step [OF inv mi r]
  show "tables_inv t'" "tables_le t t'" using st by (simp_all add: res)
  show "\<forall>d \<in> set (Aegisub_Extradata f').
           dict_get (extradata_to_id t') (Key d, Value d) = Some (Id' d)"
    using st by (simp add: res)
  have m1: "m1 = id_map_of f f'"
    using st by (simp add: id_map_of_def dict_of_def res(3))
  show "remapped f f'"
    unfolding remapped_def m1 [symmetric] using st by (simp add: res(3))
  have mi1: "id_map_inv t1 m1" using st by blast
  show "\<forall>l \<in> set (Events f'). \<forall>i \<in> set (extra_indices l).
           dict_get (id_to_extradata t') i \<noteq> None"
  proof (intro ballI)
    fix l i assume "l \<in> set (Events f')" "i \<in> set (extra_indices l)"
    then obtain l0 :: ASSLine where "i \<in> set (remap m1 (extra_indices l0))"
      by (auto simp: res(3))
    then obtain k where "dict_get m1 k = Some i" using remap_range by blast
    then show "dict_get (id_to_extradata t') i \<noteq> None"
      using mi1 unfolding id_map_inv_def res(1) by blast
  qed
qed

lemma tables_inv_init: "tables_inv \<lparr>extradata_to_id = [], id_to_extradata = [], largest_id = 0\<rparr>"
  by (simp add: tables_inv_def dict_keys_def)

lemma registered_in_table:
  assumes inv: "tables_inv t"
    and d: "dict_get (extradata_to_id t) (Key d, Value d) = Some (Id' d)"
  shows "d \<in> set (table_of t)"
proof -
  from inv d obtain e where e: "dict_get (id_to_extradata t) (Id' d) = Some e"
    "(Key e, Value e) = (Key d, Value d)"
    unfolding tables_inv_def by blast
  then have "Id' e = Id' d" using inv unfolding tables_inv_def by blast
  with e(2) have "e = d" by simp
  with e(1) show ?thesis using table_of_inv(4) [OF inv] by blast
qed

lemma merge_extradata_run:
  assumes "merge_extradata mine parent their = (table, mine', parent', their')"
  shows "\<exists>t. tables_inv t \<and> table = table_of t \<and>
     (\<forall>d \<in> set (Aegisub_Extradata parent') \<union> set (Aegisub_Extradata mine')
            \<union> set (Aegisub_Extradata their').
        dict_get (extradata_to_id t) (Key d, Value d) = Some (Id' d)) \<and>
     (\<forall>l \<in> set (Events parent') \<union> set (Events mine') \<union> set (Events their').
        \<forall>i \<in> set (extra_indices l). dict_get (id_to_extradata t) i \<noteq> None) \<and>
     remapped parent parent' \<and> remapped mine mine' \<and> remapped their their'"
proof -
  let ?t0 = "\<lparr>extradata_to_id = [], id_to_extradata = [], largest_id = 0\<rparr>"
  obtain t1 p1 m1 where r1: "reconcile_file ?t0 parent = (t1, p1, m1)"
    by (cases "reconcile_file ?t0 parent")
  obtain t2 p2 m2 where r2: "reconcile_file t1 mine = (t2, p2, m2)"
    by (cases "reconcile_file t1 mine")
  obtain t3 p3 m3 where r3: "reconcile_file t2 their = (t3, p3, m3)"
    by (cases "reconcile_file t2 their")
  have res: "table = table_of t3" "parent' = p1" "mine' = p2" "their' = p3"
    using assms by (simp_all add: merge_extradata_def r1 r2 r3 table_of_def)
  note s1 = reconcile_file_step [OF tables_inv_init r1]
  note s2 = reconcile_file_step [OF s1(1) r2]
  note s3 = reconcile_file_step [OF s2(1) r3]
  have le13: "tables_le t1 t3" using s2(2) s3(2) by (rule tables_le_trans)
  have c1: "\<forall>d \<in> set (Aegisub_Extradata p1).
      dict_get (extradata_to_id t3) (Key d, Value d) = Some (Id' d)"
    using s1(3) le13 unfolding tables_le_def by blast
  have c2: "\<forall>d \<in> set (Aegisub_Extradata p2).
      dict_get (extradata_to_id t3) (Key d, Value d) = Some (Id' d)"
    using s2(3) s3(2) unfolding tables_le_def by blast
  have e1: "\<forall>l \<in> set (Events p1). \<forall>i \<in> set (extra_indices l).
      dict_get (id_to_extradata t3) i \<noteq> None"
    using s1(5) le13 unfolding tables_le_def by (metis not_Some_eq)
  have e2: "\<forall>l \<in> set (Events p2). \<forall>i \<in> set (extra_indices l).
      dict_get (id_to_extradata t3) i \<noteq> None"
    using s2(5) s3(2) unfolding tables_le_def by (metis not_Some_eq)
  have "\<forall>d \<in> set (Aegisub_Extradata p1) \<union> set (Aegisub_Extradata p2)
            \<union> set (Aegisub_Extradata p3).
        dict_get (extradata_to_id t3) (Key d, Value d) = Some (Id' d)"
    using c1 c2 s3(3) by blast
  moreover have "\<forall>l \<in> set (Events p1) \<union> set (Events p2) \<union> set (Events p3).
        \<forall>i \<in> set (extra_indices l). dict_get (id_to_extradata t3) i \<noteq> None"
    using e1 e2 s3(5) by blast
  ultimately show ?thesis
    unfolding res using s3(1) s1(4) s2(4) s3(4) by blast
qed

text \<open>
  Vocabulary for the statements, written without the dictionaries of the code. The new
  id of an old id \<open>r\<close> of a file is the id that the file's data line with the id \<open>r\<close> has
  afterwards (the last such line, if several share the id); a reference list is
  translated by replacing every reference by its new id, in order, and leaving out the
  references that no data line of the file backs. A file is rewritten when its data
  lines kept their contents and every event kept everything but its references, which
  were translated. The references of a file are resolved when each names an id of the
  table. Data lines have one id per content when equal contents carry equal ids.
\<close>

definition new_id_of :: "ass_file \<Rightarrow> ass_file \<Rightarrow> int \<Rightarrow> int option" where
  "new_id_of f f' r =
     (let ps = filter (\<lambda>(old_id, new_id). old_id = r)
                 (zip (map Id' (Aegisub_Extradata f)) (map Id' (Aegisub_Extradata f')))
      in if ps = [] then None else Some (snd (last ps)))"

definition translated :: "ass_file \<Rightarrow> ass_file \<Rightarrow> int list \<Rightarrow> int list" where
  "translated f f' refs =
     concat (map (\<lambda>r. case new_id_of f f' r of None \<Rightarrow> [] | Some i \<Rightarrow> [i]) refs)"

definition rewritten :: "ass_file \<Rightarrow> ass_file \<Rightarrow> bool" where
  "rewritten f f' \<longleftrightarrow>
     map Key (Aegisub_Extradata f') = map Key (Aegisub_Extradata f) \<and>
     map Value (Aegisub_Extradata f') = map Value (Aegisub_Extradata f) \<and>
     Events f' = map (\<lambda>l. l\<lparr>extra_indices := translated f f' (extra_indices l)\<rparr>) (Events f)"

definition resolved :: "DataLine list \<Rightarrow> ass_file \<Rightarrow> bool" where
  "resolved table f \<longleftrightarrow>
     list_all (\<lambda>l. list_all (\<lambda>i. i \<in> set (map Id' table)) (extra_indices l)) (Events f)"

definition same_content_same_id :: "DataLine list \<Rightarrow> bool" where
  "same_content_same_id ls \<longleftrightarrow>
     list_all (\<lambda>d. list_all (\<lambda>d'. Key d = Key d' \<and> Value d = Value d' \<longrightarrow> Id' d = Id' d') ls) ls"

lemma map_of_rev_last:
  "map_of (rev kvs) k =
     (let ps = filter (\<lambda>(k', v). k' = k) kvs in if ps = [] then None else Some (snd (last ps)))"
proof (induction kvs rule: rev_induct)
  case Nil
  show ?case by simp
next
  case (snoc kv kvs)
  obtain k' v' where kv: "kv = (k', v')" by (cases kv)
  show ?case using snoc by (simp add: kv Let_def)
qed

lemma dict_get_dict_of_last:
  "dict_get (dict_of kvs) k =
     (let ps = filter (\<lambda>(k', v). k' = k) kvs in if ps = [] then None else Some (snd (last ps)))"
proof -
  have "dict_get (dict_of kvs) k = map_of (rev kvs) k"
    by (cases "map_of (rev kvs) k") (simp_all add: dict_of_def dict_get_update)
  then show ?thesis by (simp only: map_of_rev_last)
qed

lemma map_filter_concat:
  "List.map_filter g xs = concat (map (\<lambda>x. case g x of None \<Rightarrow> [] | Some y \<Rightarrow> [y]) xs)"
  by (induction xs) (auto simp: List.map_filter_simps split: option.splits)

lemma remap_translated: "remap (id_map_of f f') refs = translated f f' refs"
  unfolding remap_def translated_def map_filter_concat
  by (simp add: id_map_of_def dict_get_dict_of_last new_id_of_def)

lemma remapped_rewritten: "remapped f f' \<Longrightarrow> rewritten f f'"
  by (simp add: remapped_def rewritten_def remap_translated)

text \<open>
  A run. The ancestor has the entries \<open>(1, a, x)\<close> and \<open>(2, b, y)\<close>. Mine has \<open>(1, b, y)\<close>,
  the ancestor's second content under the id of its first, and \<open>(2, c, z)\<close>, a new content
  whose id is taken; its event refers to both and to \<open>7\<close>, which no entry backs. Theirs
  has \<open>(5, a, x)\<close> and \<open>(1, c, z)\<close>.
\<close>

definition ex_event :: "int list \<Rightarrow> ASSLine" where
  "ex_event refs = (event ''0:01'' ''0:02'' ''t'')\<lparr>extra_indices := refs\<rparr>"

definition ex_parent :: ass_file where
  "ex_parent = \<lparr>Aegisub_Extradata = [\<lparr>Id' = 1, Key = ''a'', Value = ''x''\<rparr>,
                                      \<lparr>Id' = 2, Key = ''b'', Value = ''y''\<rparr>],
                 Events = [ex_event [1, 2]]\<rparr>"

definition ex_mine :: ass_file where
  "ex_mine = \<lparr>Aegisub_Extradata = [\<lparr>Id' = 1, Key = ''b'', Value = ''y''\<rparr>,
                                    \<lparr>Id' = 2, Key = ''c'', Value = ''z''\<rparr>],
               Events = [ex_event [2, 1, 7]]\<rparr>"

definition ex_their :: ass_file where
  "ex_their = \<lparr>Aegisub_Extradata = [\<lparr>Id' = 5, Key = ''a'', Value = ''x''\<rparr>,
                                     \<lparr>Id' = 1, Key = ''c'', Value = ''z''\<rparr>],
                Events = [ex_event [1, 5]]\<rparr>"

definition ex_table :: "DataLine list" where
  "ex_table = [\<lparr>Id' = 1, Key = ''a'', Value = ''x''\<rparr>, \<lparr>Id' = 2, Key = ''b'', Value = ''y''\<rparr>,
               \<lparr>Id' = 3, Key = ''c'', Value = ''z''\<rparr>]"

definition ex_parent' :: ass_file where
  "ex_parent' = \<lparr>Aegisub_Extradata = [\<lparr>Id' = 1, Key = ''a'', Value = ''x''\<rparr>,
                                       \<lparr>Id' = 2, Key = ''b'', Value = ''y''\<rparr>],
                  Events = [ex_event [1, 2]]\<rparr>"

definition ex_mine' :: ass_file where
  "ex_mine' = \<lparr>Aegisub_Extradata = [\<lparr>Id' = 2, Key = ''b'', Value = ''y''\<rparr>,
                                     \<lparr>Id' = 3, Key = ''c'', Value = ''z''\<rparr>],
                Events = [ex_event [3, 2]]\<rparr>"

definition ex_their' :: ass_file where
  "ex_their' = \<lparr>Aegisub_Extradata = [\<lparr>Id' = 1, Key = ''a'', Value = ''x''\<rparr>,
                                      \<lparr>Id' = 3, Key = ''c'', Value = ''z''\<rparr>],
                 Events = [ex_event [3, 1]]\<rparr>"

lemma ex_merge_extradata:
  "merge_extradata ex_mine ex_parent ex_their = (ex_table, ex_mine', ex_parent', ex_their')"
  by (simp add: merge_extradata_def reconcile_file_def register_line_def Let_def remap_def
      ex_mine_def ex_parent_def ex_their_def ex_event_def dict_get_def dict_set_def dict_keys_def
      List.map_filter_simps ex_table_def ex_mine'_def ex_parent'_def ex_their'_def)

text \<open>
  Claim C6. Reconciliation deduplicates by content. After \<open>merge_extradata\<close>, any two
  data lines with the same key and value, of one file or of two, or of the merged table,
  carry the same id, and each of them is an entry of the merged table. Every file keeps
  the contents of its data lines, and each of its events keeps everything but its
  reference list, in which every reference to a data line of the file is replaced by the
  id that data line has now and every other reference is dropped. Every reference that
  is left names an id of the merged table.
\<close>

theorem merge_extradata_dedup:
  assumes "merge_extradata mine parent their = (table, mine', parent', their')"
  shows "same_content_same_id
           (Aegisub_Extradata parent' @ Aegisub_Extradata mine' @ Aegisub_Extradata their' @ table) \<and>
         set (Aegisub_Extradata parent') \<union> set (Aegisub_Extradata mine')
           \<union> set (Aegisub_Extradata their') \<subseteq> set table \<and>
         rewritten parent parent' \<and> rewritten mine mine' \<and> rewritten their their' \<and>
         resolved table parent' \<and> resolved table mine' \<and> resolved table their'"
proof -
  from merge_extradata_run [OF assms] obtain t where
    inv: "tables_inv t" and tab: "table = table_of t"
    and reg: "\<forall>d \<in> set (Aegisub_Extradata parent') \<union> set (Aegisub_Extradata mine')
            \<union> set (Aegisub_Extradata their').
        dict_get (extradata_to_id t) (Key d, Value d) = Some (Id' d)"
    and refs: "\<forall>l \<in> set (Events parent') \<union> set (Events mine') \<union> set (Events their').
        \<forall>i \<in> set (extra_indices l). dict_get (id_to_extradata t) i \<noteq> None"
    and rm: "remapped parent parent'" "remapped mine mine'" "remapped their their'"
    by blast
  have rw: "rewritten parent parent'" "rewritten mine mine'" "rewritten their their'"
    using rm by (simp_all add: remapped_rewritten)
  have sub: "set (Aegisub_Extradata parent') \<union> set (Aegisub_Extradata mine')
           \<union> set (Aegisub_Extradata their') \<subseteq> set table"
    unfolding tab using registered_in_table [OF inv] reg by blast
  have treg: "dict_get (extradata_to_id t) (Key d, Value d) = Some (Id' d)" if "d \<in> set table" for d
  proof -
    from that obtain i where "dict_get (id_to_extradata t) i = Some d"
      unfolding tab table_of_inv(4) [OF inv] by blast
    then show ?thesis using inv unfolding tables_inv_def by blast
  qed
  let ?all = "Aegisub_Extradata parent' @ Aegisub_Extradata mine' @ Aegisub_Extradata their' @ table"
  have allreg: "dict_get (extradata_to_id t) (Key d, Value d) = Some (Id' d)" if "d \<in> set ?all" for d
  proof (cases "d \<in> set table")
    case True
    then show ?thesis by (rule treg)
  next
    case False
    with that have "d \<in> set (Aegisub_Extradata parent') \<union> set (Aegisub_Extradata mine')
            \<union> set (Aegisub_Extradata their')" by simp
    with reg show ?thesis by (rule bspec)
  qed
  have same: "same_content_same_id ?all"
    unfolding same_content_same_id_def list_all_iff
  proof (intro ballI impI)
    fix d d' assume d: "d \<in> set ?all" and d': "d' \<in> set ?all"
      and eq: "Key d = Key d' \<and> Value d = Value d'"
    from allreg [OF d] allreg [OF d'] eq show "Id' d = Id' d'" by simp
  qed
  have ids: "i \<in> set (map Id' table)" if "dict_get (id_to_extradata t) i \<noteq> None" for i
  proof -
    from that have "i \<in> set (dict_keys (id_to_extradata t))"
      using dict_get_None_iff [of "id_to_extradata t" i] by simp
    then show ?thesis unfolding tab table_of_inv(1) [OF inv] by simp
  qed
  have r: "resolved table f"
    if "set (Events f) \<subseteq> set (Events parent') \<union> set (Events mine') \<union> set (Events their')" for f
    unfolding resolved_def list_all_iff
  proof (intro ballI)
    fix l i assume l: "l \<in> set (Events f)" and i: "i \<in> set (extra_indices l)"
    from that l have "l \<in> set (Events parent') \<union> set (Events mine') \<union> set (Events their')"
      by (rule subsetD)
    with refs i have "dict_get (id_to_extradata t) i \<noteq> None" by blast
    then show "i \<in> set (map Id' table)" by (rule ids)
  qed
  have "resolved table parent'" "resolved table mine'" "resolved table their'"
    by (rule r, blast)+
  with same sub rw show ?thesis by (intro conjI)
qed

theorem merge_extradata_dedup_witness:
  "merge_extradata ex_mine ex_parent ex_their = (ex_table, ex_mine', ex_parent', ex_their') \<and>
   same_content_same_id
     (Aegisub_Extradata ex_parent' @ Aegisub_Extradata ex_mine' @ Aegisub_Extradata ex_their'
        @ ex_table) \<and>
   set (Aegisub_Extradata ex_parent') \<union> set (Aegisub_Extradata ex_mine')
     \<union> set (Aegisub_Extradata ex_their') \<subseteq> set ex_table \<and>
   rewritten ex_parent ex_parent' \<and> rewritten ex_mine ex_mine' \<and> rewritten ex_their ex_their' \<and>
   resolved ex_table ex_parent' \<and> resolved ex_table ex_mine' \<and> resolved ex_table ex_their' \<and>
   map extra_indices (Events ex_mine) = [[2, 1, 7]] \<and>
   translated ex_mine ex_mine' [2, 1, 7] = [3, 2] \<and>
   map extra_indices (Events ex_mine') = [[3, 2]] \<and>
   map extra_indices (Events ex_their) = [[1, 5]] \<and>
   map extra_indices (Events ex_their') = [[3, 1]]"
proof -
  have "map extra_indices (Events ex_mine) = [[2, 1, 7]]"
    "map extra_indices (Events ex_mine') = [[3, 2]]"
    "map extra_indices (Events ex_their) = [[1, 5]]"
    "map extra_indices (Events ex_their') = [[3, 1]]"
    by (simp_all add: ex_mine_def ex_mine'_def ex_their_def ex_their'_def ex_event_def)
  moreover have "translated ex_mine ex_mine' [2, 1, 7] = [3, 2]"
    by (simp add: translated_def new_id_of_def ex_mine_def ex_mine'_def)
  ultimately show ?thesis
    using merge_extradata_dedup [OF ex_merge_extradata] ex_merge_extradata by (intro conjI) blast+
qed

text \<open>
  Claim C10. The table \<open>merge_extradata\<close> returns has pairwise distinct ids and
  pairwise distinct contents.
\<close>

theorem merge_extradata_table_distinct:
  assumes "merge_extradata mine parent their = (table, mine', parent', their')"
  shows "distinct (map Id' table) \<and> distinct (map (\<lambda>d. (Key d, Value d)) table)"
proof -
  from merge_extradata_run [OF assms] obtain t where
    "tables_inv t" "table = table_of t" by blast
  then show ?thesis using table_of_inv(2,3) by blast
qed

theorem merge_extradata_table_distinct_witness:
  "merge_extradata ex_mine ex_parent ex_their = (ex_table, ex_mine', ex_parent', ex_their') \<and>
   distinct (map Id' ex_table) \<and> distinct (map (\<lambda>d. (Key d, Value d)) ex_table)"
  using merge_extradata_table_distinct [OF ex_merge_extradata] ex_merge_extradata
  by (intro conjI) blast+

section \<open>Sequence matcher: class \<open>LineMatcher\<close>\<close>

text \<open>
  The matcher object holds the two sequences \<open>a\<close> and \<open>b\<close>, the key functions
  \<open>memoizers\<close> and one index map per key function; they are passed as arguments here.
  The constructor fills the index maps: under each key value, the positions of \<open>b\<close>
  with that key, in increasing order (\<open>imap.setdefault(key, []).append(i)\<close>).
\<close>

definition setdefault_append :: "('k, int list) dict \<Rightarrow> 'k \<Rightarrow> int \<Rightarrow> ('k, int list) dict" where
  "setdefault_append imap key i =
     dict_set imap key ((case dict_get imap key of None \<Rightarrow> [] | Some l \<Rightarrow> l) @ [i])"

definition index_line ::
  "('a \<Rightarrow> 'k) list \<Rightarrow> int \<times> 'a \<Rightarrow> ('k, int list) dict list \<Rightarrow> ('k, int list) dict list" where
  "index_line memoizers il index_maps =
     map (\<lambda>(imap, memoizer). setdefault_append imap (memoizer (snd il)) (fst il))
       (zip index_maps memoizers)"

definition build_index_maps :: "'a list \<Rightarrow> ('a \<Rightarrow> 'k) list \<Rightarrow> ('k, int list) dict list" where
  "build_index_maps b memoizers =
     fold (index_line memoizers) (zip (map int [0..<length b]) b) (map (\<lambda>_. []) memoizers)"

text \<open>
  \<open>heapq.merge\<close> of position lists that are each increasing: one increasing list with
  every position as often as it occurs in the inputs.
\<close>

fun merge2 :: "int list \<Rightarrow> int list \<Rightarrow> int list" where
  "merge2 [] ys = ys"
| "merge2 xs [] = xs"
| "merge2 (x # xs) (y # ys) =
     (if y < x then y # merge2 (x # xs) ys else x # merge2 xs (y # ys))"

definition heapq_merge :: "int list list \<Rightarrow> int list" where
  "heapq_merge ls = foldr merge2 ls []"

definition b_matches :: "('k, int list) dict list \<Rightarrow> ('a \<Rightarrow> 'k) list \<Rightarrow> 'a \<Rightarrow> int list" where
  "b_matches index_maps memoizers line_a =
     heapq_merge (map (\<lambda>(imap, memoizer).
                    case dict_get imap (memoizer line_a) of None \<Rightarrow> [] | Some l \<Rightarrow> l)
                  (zip index_maps memoizers))"

subsection \<open>\<open>_lcs\<close>: the longest matching run of a window\<close>

text \<open>
  The inner loop over the candidate positions \<open>j\<close> of one row \<open>i\<close>: positions left of the
  window are skipped, the first one right of it ends the loop.
\<close>

fun lcs_row ::
  "int \<Rightarrow> int \<Rightarrow> int \<Rightarrow> (int, int) dict \<Rightarrow> int list
     \<Rightarrow> (int, int) dict \<times> int \<times> int \<times> int \<Rightarrow> (int, int) dict \<times> int \<times> int \<times> int"
where
  "lcs_row i bi bj match_lengths [] st = st"
| "lcs_row i bi bj match_lengths (j # js) (updated_match_lengths, longest_match, start_a, start_b) =
     (if j < bi then
        lcs_row i bi bj match_lengths js (updated_match_lengths, longest_match, start_a, start_b)
      else if j \<ge> bj then (updated_match_lengths, longest_match, start_a, start_b)
      else
        (let match_length = (case dict_get match_lengths (j - 1) of None \<Rightarrow> 0 | Some v \<Rightarrow> v) + 1;
             updated = dict_set updated_match_lengths j match_length
         in if match_length > longest_match
            then lcs_row i bi bj match_lengths js
                   (updated, match_length, i - match_length + 1, j - match_length + 1)
            else lcs_row i bi bj match_lengths js (updated, longest_match, start_a, start_b)))"

text \<open>The outer loop \<open>for i in range(ai, aj)\<close>, from row \<open>i\<close> on.\<close>

function lcs_rows ::
  "'a list \<Rightarrow> ('k, int list) dict list \<Rightarrow> ('a \<Rightarrow> 'k) list \<Rightarrow> int \<Rightarrow> int \<Rightarrow> int \<Rightarrow> int
     \<Rightarrow> (int, int) dict \<times> int \<times> int \<times> int \<Rightarrow> error + int \<times> int \<times> int"
where
  "lcs_rows a index_maps memoizers aj bi bj i (match_lengths, longest_match, start_a, start_b) =
     (if i < aj then
        ebind (list_get a i) (\<lambda>line_a.
          lcs_rows a index_maps memoizers aj bi bj (i + 1)
            (lcs_row i bi bj match_lengths (b_matches index_maps memoizers line_a)
               ([], longest_match, start_a, start_b)))
      else Inr (start_a, start_b, longest_match))"
  by pat_completeness auto
termination
  by (relation "measure (\<lambda>(a, index_maps, memoizers, aj, bi, bj, i, st). nat (aj - i))") auto

definition lcs ::
  "'a list \<Rightarrow> ('k, int list) dict list \<Rightarrow> ('a \<Rightarrow> 'k) list \<Rightarrow> int \<Rightarrow> int \<Rightarrow> int \<Rightarrow> int
     \<Rightarrow> error + int \<times> int \<times> int"
where
  "lcs a index_maps memoizers ai aj bi bj =
     lcs_rows a index_maps memoizers aj bi bj ai ([], 0, ai, bi)"

subsection \<open>\<open>find_matches\<close>: the worklist of windows\<close>

text \<open>
  The \<open>while\<close> loop over the queue of windows. Whether it ends is a property of the
  loop, so it is defined as a partial function: \<open>None\<close> is a run that never returns.
\<close>

partial_function (option) find_loop ::
  "'a list \<Rightarrow> ('k, int list) dict list \<Rightarrow> ('a \<Rightarrow> 'k) list \<Rightarrow> (int \<times> int \<times> int \<times> int) list
     \<Rightarrow> (int \<times> int \<times> int) list \<Rightarrow> (error + (int \<times> int \<times> int) list) option"
where
  "find_loop a index_maps memoizers queue matches =
     (case queue of
        [] \<Rightarrow> Some (Inr matches)
      | (ai, aj, bi, bj) # queue' \<Rightarrow>
          if aj - ai \<le> 0 \<or> bj - bi \<le> 0 then find_loop a index_maps memoizers queue' matches
          else
            (case lcs a index_maps memoizers ai aj bi bj of
               Inl e \<Rightarrow> Some (Inl e)
             | Inr (start_a, start_b, match_length) \<Rightarrow>
                 find_loop a index_maps memoizers
                   (if match_length > 0
                    then queue' @ [(ai, start_a, bi, start_b),
                                   (start_a + match_length, aj, start_b + match_length, bj)]
                    else queue')
                   (matches @ [(start_a, start_b, match_length)])))"

definition find_matches ::
  "'a list \<Rightarrow> 'a list \<Rightarrow> ('a \<Rightarrow> 'k) list \<Rightarrow> (error + (int \<times> int \<times> int) list) option"
where
  "find_matches a b memoizers =
     map_option (map_sum id sort)
       (find_loop a (build_index_maps b memoizers) memoizers
          [(0, int (length a), 0, int (length b))] [])"

subsection \<open>Bounds of the run \<open>_lcs\<close> returns\<close>

text \<open>
  After row \<open>i\<close> of the window that starts at \<open>(ai, bi)\<close> and ends before column
  \<open>bj\<close>: every recorded run length fits between the window's corner and its cell, and
  the best run so far lies inside the rows up to \<open>i\<close> and the columns of the window.
\<close>

definition lengths_ok :: "int \<Rightarrow> int \<Rightarrow> int \<Rightarrow> int \<Rightarrow> (int, int) dict \<Rightarrow> bool" where
  "lengths_ok ai bi bj i match_lengths \<longleftrightarrow>
     (\<forall>j v. dict_get match_lengths j = Some v \<longrightarrow>
        1 \<le> v \<and> v \<le> i - ai + 1 \<and> v \<le> j - bi + 1 \<and> j < bj)"

definition best_ok :: "int \<Rightarrow> int \<Rightarrow> int \<Rightarrow> int \<Rightarrow> int \<Rightarrow> int \<Rightarrow> int \<Rightarrow> bool" where
  "best_ok ai bi bj i longest_match start_a start_b \<longleftrightarrow>
     0 \<le> longest_match \<and>
     (longest_match = 0 \<longrightarrow> start_a = ai \<and> start_b = bi) \<and>
     (longest_match > 0 \<longrightarrow>
        ai \<le> start_a \<and> start_a + longest_match \<le> i + 1 \<and>
        bi \<le> start_b \<and> start_b + longest_match \<le> bj)"

lemma lcs_row_ok:
  assumes "ai \<le> i" "lengths_ok ai bi bj (i - 1) match_lengths"
    and "lengths_ok ai bi bj i upd" "best_ok ai bi bj i longest sa sb"
    and "lcs_row i bi bj match_lengths js (upd, longest, sa, sb) = (upd', longest', sa', sb')"
  shows "lengths_ok ai bi bj i upd' \<and> best_ok ai bi bj i longest' sa' sb'"
  using assms(3,4,5)
proof (induction js arbitrary: upd longest sa sb)
  case Nil
  then show ?case by simp
next
  case (Cons j js)
  show ?case
  proof (cases "j < bi")
    case True
    with Cons.prems(3) have "lcs_row i bi bj match_lengths js (upd, longest, sa, sb)
        = (upd', longest', sa', sb')" by simp
    from Cons.IH [OF Cons.prems(1,2) this] show ?thesis .
  next
    case lo: False
    show ?thesis
    proof (cases "j \<ge> bj")
      case True
      with lo Cons.prems show ?thesis by simp
    next
      case hi: False
      define prev where "prev = (case dict_get match_lengths (j - 1) of None \<Rightarrow> 0 | Some v \<Rightarrow> v)"
      define ml where "ml = prev + 1"
      have prev: "0 \<le> prev \<and> prev \<le> i - ai \<and> prev \<le> j - bi"
      proof (cases "dict_get match_lengths (j - 1)")
        case None
        then show ?thesis using assms(1) lo by (simp add: prev_def)
      next
        case (Some v)
        then have "1 \<le> v \<and> v \<le> (i - 1) - ai + 1 \<and> v \<le> (j - 1) - bi + 1"
          using assms(2) unfolding lengths_ok_def by blast
        then show ?thesis using Some by (simp add: prev_def)
      qed
      then have ml: "1 \<le> ml" "ml \<le> i - ai + 1" "ml \<le> j - bi + 1"
        by (simp_all add: ml_def)
      have lu: "lengths_ok ai bi bj i (dict_set upd j ml)"
        using Cons.prems(1) ml hi unfolding lengths_ok_def by (auto simp: dict_get_set)
      show ?thesis
      proof (cases "ml > longest")
        case True
        have step: "lcs_row i bi bj match_lengths js (dict_set upd j ml, ml, i - ml + 1, j - ml + 1)
            = (upd', longest', sa', sb')"
          using Cons.prems(3) lo hi True by (simp add: ml_def prev_def Let_def)
        have "best_ok ai bi bj i ml (i - ml + 1) (j - ml + 1)"
          using ml hi unfolding best_ok_def by auto
        from Cons.IH [OF lu this step] show ?thesis .
      next
        case False
        have step: "lcs_row i bi bj match_lengths js (dict_set upd j ml, longest, sa, sb)
            = (upd', longest', sa', sb')"
          using Cons.prems(3) lo hi False by (simp add: ml_def prev_def Let_def)
        from Cons.IH [OF lu Cons.prems(2) step] show ?thesis .
      qed
    qed
  qed
qed

definition state_ok :: "int \<Rightarrow> int \<Rightarrow> int \<Rightarrow> int \<Rightarrow> (int, int) dict \<times> int \<times> int \<times> int \<Rightarrow> bool" where
  "state_ok ai bi bj i st \<longleftrightarrow>
     (case st of (match_lengths, longest_match, start_a, start_b) \<Rightarrow>
        lengths_ok ai bi bj i match_lengths \<and> best_ok ai bi bj i longest_match start_a start_b)"

text \<open>
  A run \<open>(start_a, start_b, match_length)\<close> for the window \<open>(ai, aj, bi, bj)\<close>: an empty
  run is reported at the window's corner, any other lies inside the window.
\<close>

definition run_in_window :: "int \<times> int \<times> int \<times> int \<Rightarrow> int \<times> int \<times> int \<Rightarrow> bool" where
  "run_in_window w r \<longleftrightarrow>
     (case w of (ai, aj, bi, bj) \<Rightarrow> case r of (start_a, start_b, match_length) \<Rightarrow>
        0 \<le> match_length \<and>
        (match_length = 0 \<longrightarrow> start_a = ai \<and> start_b = bi) \<and>
        (match_length > 0 \<longrightarrow>
           ai \<le> start_a \<and> start_a + match_length \<le> aj \<and>
           bi \<le> start_b \<and> start_b + match_length \<le> bj))"

lemma best_ok_mono: "best_ok ai bi bj i l sa sb \<Longrightarrow> i \<le> i' \<Longrightarrow> best_ok ai bi bj i' l sa sb"
  unfolding best_ok_def by auto

lemma lcs_rows_bounds:
  "lcs_rows a im ms aj bi bj i st = Inr r \<Longrightarrow> ai \<le> i \<Longrightarrow> state_ok ai bi bj (i - 1) st \<Longrightarrow>
   (fst (snd st) > 0 \<longrightarrow> i \<le> aj) \<Longrightarrow> run_in_window (ai, aj, bi, bj) r"
proof (induction a im ms aj bi bj i st rule: lcs_rows.induct)
  case (1 a im ms aj bi bj i ml longest sa sb)
  have lo: "lengths_ok ai bi bj (i - 1) ml" and bo: "best_ok ai bi bj (i - 1) longest sa sb"
    using "1.prems"(3) by (simp_all add: state_ok_def)
  show ?case
  proof (cases "i < aj")
    case True
    with "1.prems"(1) obtain line_a where la: "list_get a i = Inr line_a"
      by (cases "list_get a i") simp_all
    obtain u' l' sa' sb' where row:
      "lcs_row i bi bj ml (b_matches im ms line_a) ([], longest, sa, sb) = (u', l', sa', sb')"
      by (cases "lcs_row i bi bj ml (b_matches im ms line_a) ([], longest, sa, sb)") auto
    have e: "lengths_ok ai bi bj i []" by (simp add: lengths_ok_def)
    have b: "best_ok ai bi bj i longest sa sb" using bo by (rule best_ok_mono) simp
    from lcs_row_ok [OF "1.prems"(2) lo e b row]
    have ok: "state_ok ai bi bj (i + 1 - 1) (u', l', sa', sb')" by (simp add: state_ok_def)
    have rec: "lcs_rows a im ms aj bi bj (i + 1) (u', l', sa', sb') = Inr r"
      using "1.prems"(1) True by (simp add: la row)
    have "ai \<le> i + 1" using "1.prems"(2) by simp
    moreover have "fst (snd (u', l', sa', sb')) > 0 \<longrightarrow> i + 1 \<le> aj" using True by simp
    ultimately show ?thesis
      using "1.IH" [OF True, of line_a] rec ok by (simp add: row)
  next
    case False
    then have "r = (sa, sb, longest)" using "1.prems"(1) by simp
    moreover have "longest > 0 \<longrightarrow> i \<le> aj" using "1.prems"(4) by simp
    ultimately show ?thesis using bo unfolding run_in_window_def best_ok_def by auto
  qed
qed

lemma lcs_bounds:
  assumes "lcs a im ms ai aj bi bj = Inr r"
  shows "run_in_window (ai, aj, bi, bj) r"
proof -
  have s: "state_ok ai bi bj (ai - 1) ([], 0, ai, bi)"
    by (simp add: state_ok_def lengths_ok_def best_ok_def)
  have r: "lcs_rows a im ms aj bi bj ai ([], 0, ai, bi) = Inr r"
    using assms by (simp add: lcs_def)
  show ?thesis
    by (rule lcs_rows_bounds [OF r _ s]) simp_all
qed

lemma list_get_in_range: "0 \<le> i \<Longrightarrow> i < int (length xs) \<Longrightarrow> list_get xs i = Inr (xs ! nat i)"
  by (simp add: list_get_def)

lemma lcs_rows_no_error:
  "0 \<le> i \<Longrightarrow> aj \<le> int (length a) \<Longrightarrow> \<exists>r. lcs_rows a im ms aj bi bj i st = Inr r"
proof (induction a im ms aj bi bj i st rule: lcs_rows.induct)
  case (1 a im ms aj bi bj i ml longest sa sb)
  show ?case
  proof (cases "i < aj")
    case True
    then have la: "list_get a i = Inr (a ! nat i)"
      using "1.prems" by (intro list_get_in_range) simp_all
    have "0 \<le> i + 1" using "1.prems"(1) by simp
    from "1.IH" [OF True this "1.prems"(2), of "a ! nat i"] show ?thesis
      using True by (simp add: la)
  next
    case False
    then show ?thesis by simp
  qed
qed

lemma lcs_no_error:
  "0 \<le> ai \<Longrightarrow> aj \<le> int (length a) \<Longrightarrow> \<exists>r. lcs a im ms ai aj bi bj = Inr r"
  unfolding lcs_def by (rule lcs_rows_no_error)

subsection \<open>The runs of a window, from left to right\<close>

text \<open>
  What the worklist collects for one window, put in position order: nothing for an empty
  window; otherwise the runs of the part before the longest run, that run, and the runs
  of the part after it. It serves to state what \<open>find_matches\<close> returns.
\<close>

function matches_rec ::
  "'a list \<Rightarrow> ('k, int list) dict list \<Rightarrow> ('a \<Rightarrow> 'k) list \<Rightarrow> int \<times> int \<times> int \<times> int
     \<Rightarrow> (int \<times> int \<times> int) list"
where
  "matches_rec a im ms (ai, aj, bi, bj) =
     (if aj - ai \<le> 0 \<or> bj - bi \<le> 0 then []
      else
        (case lcs a im ms ai aj bi bj of
           Inl e \<Rightarrow> []
         | Inr (start_a, start_b, match_length) \<Rightarrow>
             if match_length > 0
             then matches_rec a im ms (ai, start_a, bi, start_b)
                    @ [(start_a, start_b, match_length)]
                    @ matches_rec a im ms (start_a + match_length, aj, start_b + match_length, bj)
             else [(start_a, start_b, match_length)]))"
  by pat_completeness auto
termination
proof (relation "measure (\<lambda>(a, im, ms, (ai, aj, bi, bj)). nat (aj - ai))", goal_cases)
  case 1
  show ?case by simp
next
  case (2 a im ms ai aj bi bj x start_a y start_b match_length)
  from lcs_bounds [OF 2(2)] 2(3,4,5) show ?case
    by (auto simp: run_in_window_def)
next
  case (3 a im ms ai aj bi bj x start_a y start_b match_length)
  from lcs_bounds [OF 3(2)] 3(3,4,5) show ?case
    by (auto simp: run_in_window_def)
qed

lemma matches_rec_empty:
  "aj - ai \<le> 0 \<or> bj - bi \<le> 0 \<Longrightarrow> matches_rec a im ms (ai, aj, bi, bj) = []"
  by simp

lemma matches_rec_run:
  "\<not> (aj - ai \<le> 0 \<or> bj - bi \<le> 0) \<Longrightarrow> lcs a im ms ai aj bi bj = Inr (sa, sb, l) \<Longrightarrow> l > 0 \<Longrightarrow>
   matches_rec a im ms (ai, aj, bi, bj) =
     matches_rec a im ms (ai, sa, bi, sb) @ [(sa, sb, l)] @ matches_rec a im ms (sa + l, aj, sb + l, bj)"
  by simp

lemma matches_rec_none:
  "\<not> (aj - ai \<le> 0 \<or> bj - bi \<le> 0) \<Longrightarrow> lcs a im ms ai aj bi bj = Inr (sa, sb, l) \<Longrightarrow> \<not> l > 0 \<Longrightarrow>
   matches_rec a im ms (ai, aj, bi, bj) = [(sa, sb, l)]"
  by simp

lemma matches_rec_error:
  "\<not> (aj - ai \<le> 0 \<or> bj - bi \<le> 0) \<Longrightarrow> lcs a im ms ai aj bi bj = Inl e \<Longrightarrow>
   matches_rec a im ms (ai, aj, bi, bj) = []"
  by simp

declare matches_rec.simps [simp del]

text \<open>
  A run lies inside a window when its cells do; an empty run counts as the cell at its
  start. One run is before another when it ends, in both sequences, where the other
  starts or earlier.
\<close>

definition inside :: "int \<times> int \<times> int \<times> int \<Rightarrow> int \<times> int \<times> int \<Rightarrow> bool" where
  "inside w r \<longleftrightarrow>
     (case w of (ai, aj, bi, bj) \<Rightarrow> case r of (sa, sb, l) \<Rightarrow>
        0 \<le> l \<and> ai \<le> sa \<and> sa + max 1 l \<le> aj \<and> bi \<le> sb \<and> sb + max 1 l \<le> bj)"

definition run_before :: "int \<times> int \<times> int \<Rightarrow> int \<times> int \<times> int \<Rightarrow> bool" where
  "run_before r r' \<longleftrightarrow>
     (case r of (sa, sb, l) \<Rightarrow> case r' of (sa', sb', l') \<Rightarrow>
        sa + max 1 l \<le> sa' \<and> sb + max 1 l \<le> sb')"

lemma matches_rec_inside:
  "r \<in> set (matches_rec a im ms w) \<Longrightarrow> inside w r"
proof (induction a im ms w arbitrary: r rule: matches_rec.induct)
  case (1 a im ms ai aj bi bj)
  show ?case
  proof (cases "aj - ai \<le> 0 \<or> bj - bi \<le> 0")
    case True
    with "1.prems" show ?thesis by (simp add: matches_rec_empty)
  next
    case ne: False
    show ?thesis
    proof (cases "lcs a im ms ai aj bi bj")
      case (Inl e)
      with ne "1.prems" show ?thesis by (simp add: matches_rec_error)
    next
      case (Inr x)
      obtain sa sb l where x: "x = (sa, sb, l)" by (cases x)
      note run = Inr [unfolded x]
      from lcs_bounds [OF run] have b: "0 \<le> l" "l = 0 \<longrightarrow> sa = ai \<and> sb = bi"
        "l > 0 \<longrightarrow> ai \<le> sa \<and> sa + l \<le> aj \<and> bi \<le> sb \<and> sb + l \<le> bj"
        by (simp_all add: run_in_window_def)
      have self: "inside (ai, aj, bi, bj) (sa, sb, l)"
        using b ne unfolding inside_def by (cases "l = 0") auto
      show ?thesis
      proof (cases "l > 0")
        case True
        from "1.prems" matches_rec_run [OF ne run True]
        consider "r \<in> set (matches_rec a im ms (ai, sa, bi, sb))" | "r = (sa, sb, l)"
          | "r \<in> set (matches_rec a im ms (sa + l, aj, sb + l, bj))" by auto
        then show ?thesis
        proof cases
          case 1
          from "1.IH"(1) [OF ne run refl refl True 1] have "inside (ai, sa, bi, sb) r" .
          then show ?thesis using b True unfolding inside_def by (cases r) auto
        next
          case 2
          then show ?thesis using self by simp
        next
          case 3
          from "1.IH"(2) [OF ne run refl refl True 3] have "inside (sa + l, aj, sb + l, bj) r" .
          then show ?thesis using b True unfolding inside_def by (cases r) auto
        qed
      next
        case False
        from "1.prems" matches_rec_none [OF ne run False] have "r = (sa, sb, l)" by simp
        then show ?thesis using self by simp
      qed
    qed
  qed
qed

lemma matches_rec_sorted: "sorted_wrt run_before (matches_rec a im ms w)"
proof (induction a im ms w rule: matches_rec.induct)
  case (1 a im ms ai aj bi bj)
  show ?case
  proof (cases "aj - ai \<le> 0 \<or> bj - bi \<le> 0")
    case True
    then show ?thesis by (simp add: matches_rec_empty)
  next
    case ne: False
    show ?thesis
    proof (cases "lcs a im ms ai aj bi bj")
      case (Inl e)
      with ne show ?thesis by (simp add: matches_rec_error)
    next
      case (Inr x)
      obtain sa sb l where x: "x = (sa, sb, l)" by (cases x)
      note run = Inr [unfolded x]
      show ?thesis
      proof (cases "l > 0")
        case True
        let ?L = "matches_rec a im ms (ai, sa, bi, sb)"
        let ?R = "matches_rec a im ms (sa + l, aj, sb + l, bj)"
        have sl: "sorted_wrt run_before ?L" by (rule "1.IH"(1) [OF ne run refl refl True])
        have sr: "sorted_wrt run_before ?R" by (rule "1.IH"(2) [OF ne run refl refl True])
        have lm: "run_before r (sa, sb, l)" if "r \<in> set ?L" for r
          using matches_rec_inside [OF that] unfolding inside_def run_before_def by (cases r) auto
        have mr: "run_before (sa, sb, l) r" if "r \<in> set ?R" for r
          using matches_rec_inside [OF that] True unfolding inside_def run_before_def
          by (cases r) auto
        have lr: "run_before r r'" if "r \<in> set ?L" "r' \<in> set ?R" for r r'
          using matches_rec_inside [OF that(1)] matches_rec_inside [OF that(2)] True
          unfolding inside_def run_before_def by (cases r; cases r') auto
        show ?thesis
          unfolding matches_rec_run [OF ne run True]
          using sl sr lm mr lr by (simp add: sorted_wrt_append)
      next
        case False
        show ?thesis unfolding matches_rec_none [OF ne run False] by simp
      qed
    qed
  qed
qed

text \<open>The measure that shrinks with every window the loop takes off the queue.\<close>

definition queue_measure :: "(int \<times> int \<times> int \<times> int) list \<Rightarrow> nat" where
  "queue_measure queue = sum_list (map (\<lambda>(ai, aj, bi, bj). 2 * nat (aj - ai) + 1) queue)"

definition window_in_range :: "'a list \<Rightarrow> int \<times> int \<times> int \<times> int \<Rightarrow> bool" where
  "window_in_range a w \<longleftrightarrow> (case w of (ai, aj, bi, bj) \<Rightarrow> 0 \<le> ai \<and> aj \<le> int (length a))"

lemma find_loop_collects:
  assumes "\<forall>w \<in> set queue. window_in_range a w"
  shows "\<exists>r. find_loop a im ms queue acc = Some (Inr r) \<and>
     mset r = mset acc + mset (concat (map (matches_rec a im ms) queue))"
  using assms
proof (induction "queue_measure queue" arbitrary: queue acc rule: less_induct)
  case less
  show ?case
  proof (cases queue)
    case Nil
    then show ?thesis by (simp add: find_loop.simps)
  next
    case (Cons w queue')
    obtain ai aj bi bj where w: "w = (ai, aj, bi, bj)" by (cases w)
    have rng: "0 \<le> ai" "aj \<le> int (length a)" and rest: "\<forall>w \<in> set queue'. window_in_range a w"
      using less.prems by (simp_all add: Cons w window_in_range_def)
    show ?thesis
    proof (cases "aj - ai \<le> 0 \<or> bj - bi \<le> 0")
      case True
      have "queue_measure queue' < queue_measure queue"
        by (simp add: Cons w queue_measure_def)
      from less.hyps [OF this rest, of acc] obtain r where
        "find_loop a im ms queue' acc = Some (Inr r)"
        "mset r = mset acc + mset (concat (map (matches_rec a im ms) queue'))" by blast
      then show ?thesis
        using True by (subst find_loop.simps) (simp add: Cons w matches_rec_empty)
    next
      case ne: False
      from lcs_no_error [OF rng, of im ms bi bj] obtain x where "lcs a im ms ai aj bi bj = Inr x" ..
      then obtain sa sb l where run: "lcs a im ms ai aj bi bj = Inr (sa, sb, l)" by (cases x) simp
      from lcs_bounds [OF run] have b: "0 \<le> l"
        "l > 0 \<longrightarrow> ai \<le> sa \<and> sa + l \<le> aj \<and> bi \<le> sb \<and> sb + l \<le> bj"
        by (simp_all add: run_in_window_def)
      show ?thesis
      proof (cases "l > 0")
        case True
        let ?q = "queue' @ [(ai, sa, bi, sb), (sa + l, aj, sb + l, bj)]"
        have "nat (sa - ai) + nat (aj - (sa + l)) < nat (aj - ai)"
          using b True by linarith
        then have m: "queue_measure ?q < queue_measure queue"
          by (simp add: Cons w queue_measure_def)
        have r: "\<forall>w \<in> set ?q. window_in_range a w"
          using rest rng b True by (auto simp: window_in_range_def)
        from less.hyps [OF m r, of "acc @ [(sa, sb, l)]"] obtain r where
          "find_loop a im ms ?q (acc @ [(sa, sb, l)]) = Some (Inr r)"
          "mset r = mset (acc @ [(sa, sb, l)]) + mset (concat (map (matches_rec a im ms) ?q))"
          by blast
        then show ?thesis
          using ne True
          by (subst find_loop.simps) (simp add: Cons w run matches_rec_run [OF ne run True])
      next
        case False
        have m: "queue_measure queue' < queue_measure queue"
          by (simp add: Cons w queue_measure_def)
        from less.hyps [OF m rest, of "acc @ [(sa, sb, l)]"] obtain r where
          "find_loop a im ms queue' (acc @ [(sa, sb, l)]) = Some (Inr r)"
          "mset r = mset (acc @ [(sa, sb, l)]) + mset (concat (map (matches_rec a im ms) queue'))"
          by blast
        then show ?thesis
          using ne False
          by (subst find_loop.simps) (simp add: Cons w run matches_rec_none [OF ne run False])
      qed
    qed
  qed
qed

lemma run_before_le: "run_before r r' \<Longrightarrow> r \<le> r'"
  unfolding run_before_def by (cases r; cases r') (auto simp: less_eq_prod_def)

lemma matches_rec_lex_sorted: "sorted (matches_rec a im ms w)"
  using matches_rec_sorted [of a im ms w] run_before_le
  by (rule sorted_wrt_mono_rel [rotated]) blast

lemma find_matches_eq:
  "find_matches a b ms =
     Some (Inr (matches_rec a (build_index_maps b ms) ms (0, int (length a), 0, int (length b))))"
proof -
  let ?im = "build_index_maps b ms"
  let ?w = "(0, int (length a), 0, int (length b))"
  have "\<forall>w \<in> set [?w]. window_in_range a w" by (simp add: window_in_range_def)
  from find_loop_collects [OF this, of ?im ms "[]"] obtain r where
    r: "find_loop a ?im ms [?w] [] = Some (Inr r)" "mset r = mset (matches_rec a ?im ms ?w)"
    by auto
  have "sort r = matches_rec a ?im ms ?w"
    using r(2) [symmetric] matches_rec_lex_sorted by (rule properties_for_sort)
  then show ?thesis by (simp add: find_matches_def r(1))
qed

subsection \<open>The claims on the matcher\<close>

text \<open>
  Runs in a list are monotone when each run starts, in both sequences, after the start
  of every earlier run and not before its end: no two runs share a position, and the
  positions of a run all come after the positions of the runs before it.
\<close>

definition runs_monotone :: "(int \<times> int \<times> int) list \<Rightarrow> bool" where
  "runs_monotone runs =
     sorted_wrt (\<lambda>r r'. case r of (sa, sb, l) \<Rightarrow> case r' of (sa', sb', l') \<Rightarrow>
                   sa < sa' \<and> sb < sb' \<and> sa + l \<le> sa' \<and> sb + l \<le> sb') runs"

text \<open>
  The windows one round of the loop puts on the queue for the window it took off, and
  what it means for a window to be smaller than another: fewer rows and fewer columns.
\<close>

definition sub_windows ::
  "'a list \<Rightarrow> ('k, int list) dict list \<Rightarrow> ('a \<Rightarrow> 'k) list \<Rightarrow> int \<times> int \<times> int \<times> int
     \<Rightarrow> (int \<times> int \<times> int \<times> int) list"
where
  "sub_windows a index_maps memoizers w =
     (case w of (ai, aj, bi, bj) \<Rightarrow>
        if aj - ai \<le> 0 \<or> bj - bi \<le> 0 then []
        else
          (case lcs a index_maps memoizers ai aj bi bj of
             Inl e \<Rightarrow> []
           | Inr (start_a, start_b, match_length) \<Rightarrow>
               if match_length > 0
               then [(ai, start_a, bi, start_b),
                     (start_a + match_length, aj, start_b + match_length, bj)]
               else []))"

definition window_smaller :: "int \<times> int \<times> int \<times> int \<Rightarrow> int \<times> int \<times> int \<times> int \<Rightarrow> bool" where
  "window_smaller w' w \<longleftrightarrow>
     (case w' of (ai', aj', bi', bj') \<Rightarrow> case w of (ai, aj, bi, bj) \<Rightarrow>
        nat (aj' - ai') < nat (aj - ai) \<and> nat (bj' - bi') < nat (bj - bi))"

text \<open>
  Claim C7. For all sequences and key functions, \<open>find_matches\<close> returns a list of runs
  that is sorted by the start in the first sequence and monotone in both sequences.
\<close>

theorem find_matches_monotone:
  "\<exists>matches. find_matches a b memoizers = Some (Inr matches) \<and>
     sorted (map fst matches) \<and> runs_monotone matches"
proof -
  let ?m = "matches_rec a (build_index_maps b memoizers) memoizers
              (0, int (length a), 0, int (length b))"
  have imp: "run_before r r' \<Longrightarrow>
      (case r of (sa, sb, l) \<Rightarrow> case r' of (sa', sb', l') \<Rightarrow>
         sa < sa' \<and> sb < sb' \<and> sa + l \<le> sa' \<and> sb + l \<le> sb')" for r r'
    unfolding run_before_def by (cases r; cases r') auto
  have mono: "runs_monotone ?m"
    unfolding runs_monotone_def
    using matches_rec_sorted imp by (rule sorted_wrt_mono_rel [rotated]) blast
  have "sorted_wrt (\<lambda>r r'. fst r \<le> fst r') ?m"
    using matches_rec_sorted
    by (rule sorted_wrt_mono_rel [rotated]) (auto simp: run_before_def)
  then have "sorted (map fst ?m)" by (simp add: sorted_wrt_map)
  with mono show ?thesis using find_matches_eq [of a b memoizers] by blast
qed

theorem find_matches_monotone_witness:
  "find_matches ''xmy'' ''zmw'' [\<lambda>c. c] = Some (Inr [(0, 0, 0), (1, 1, 1), (2, 2, 0)]) \<and>
   runs_monotone [(0, 0, 0), (1, 1, 1), (2, 2, 0)]"
proof -
  have e: "find_matches ''xmy'' ''zmw'' [\<lambda>c. c] = Some (Inr [(0, 0, 0), (1, 1, 1), (2, 2, 0)])"
    by (simp add: find_matches_def build_index_maps_def index_line_def setdefault_append_def
      find_loop.simps lcs_def b_matches_def heapq_merge_def list_get_def dict_get_def dict_set_def)
  from find_matches_monotone [of "''xmy''" "''zmw''" "[\<lambda>c. c]"] show ?thesis
    unfolding e by simp
qed

text \<open>
  Claim C9. The search of \<open>find_matches\<close> ends for all sequences and key functions.
  One round of the loop takes a window off the queue and puts on it the sub-windows of
  that window: none, or two that are both smaller than it.
\<close>

theorem find_matches_terminates:
  "(\<exists>matches. find_matches a b memoizers = Some (Inr matches)) \<and>
   (\<forall>w queue matches.
      find_loop a index_maps memoizers (w # queue) matches =
        (case w of (ai, aj, bi, bj) \<Rightarrow>
           if aj - ai \<le> 0 \<or> bj - bi \<le> 0 then find_loop a index_maps memoizers queue matches
           else
             (case lcs a index_maps memoizers ai aj bi bj of
                Inl e \<Rightarrow> Some (Inl e)
              | Inr r \<Rightarrow> find_loop a index_maps memoizers
                           (queue @ sub_windows a index_maps memoizers w) (matches @ [r])))) \<and>
   (\<forall>w. sub_windows a index_maps memoizers w = [] \<or>
        (\<exists>w1 w2. sub_windows a index_maps memoizers w = [w1, w2] \<and>
           window_smaller w1 w \<and> window_smaller w2 w))"
proof (intro conjI allI)
  show "\<exists>matches. find_matches a b memoizers = Some (Inr matches)"
    using find_matches_eq [of a b memoizers] by blast
next
  fix w :: "int \<times> int \<times> int \<times> int" and queue matches
  obtain ai aj bi bj where w: "w = (ai, aj, bi, bj)" by (cases w)
  show "find_loop a index_maps memoizers (w # queue) matches =
        (case w of (ai, aj, bi, bj) \<Rightarrow>
           if aj - ai \<le> 0 \<or> bj - bi \<le> 0 then find_loop a index_maps memoizers queue matches
           else
             (case lcs a index_maps memoizers ai aj bi bj of
                Inl e \<Rightarrow> Some (Inl e)
              | Inr r \<Rightarrow> find_loop a index_maps memoizers
                           (queue @ sub_windows a index_maps memoizers w) (matches @ [r])))"
    by (subst find_loop.simps)
       (auto simp: w sub_windows_def split: sum.splits prod.splits)
next
  fix w :: "int \<times> int \<times> int \<times> int"
  obtain ai aj bi bj where w: "w = (ai, aj, bi, bj)" by (cases w)
  show "sub_windows a index_maps memoizers w = [] \<or>
        (\<exists>w1 w2. sub_windows a index_maps memoizers w = [w1, w2] \<and>
           window_smaller w1 w \<and> window_smaller w2 w)"
  proof (cases "sub_windows a index_maps memoizers w = []")
    case True
    then show ?thesis by simp
  next
    case False
    then have ne: "\<not> (aj - ai \<le> 0 \<or> bj - bi \<le> 0)"
      by (auto simp: sub_windows_def w)
    from False ne obtain sa sb l where run: "lcs a index_maps memoizers ai aj bi bj = Inr (sa, sb, l)"
      and l: "l > 0"
      by (auto simp: sub_windows_def w split: sum.splits if_splits)
    from lcs_bounds [OF run] l have b: "ai \<le> sa" "sa + l \<le> aj" "bi \<le> sb" "sb + l \<le> bj"
      by (simp_all add: run_in_window_def)
    have "sub_windows a index_maps memoizers w = [(ai, sa, bi, sb), (sa + l, aj, sb + l, bj)]"
      using ne l by (simp add: sub_windows_def w run)
    moreover have "window_smaller (ai, sa, bi, sb) w" "window_smaller (sa + l, aj, sb + l, bj) w"
      using b l by (simp_all add: window_smaller_def w)
    ultimately show ?thesis by blast
  qed
qed

theorem find_matches_terminates_witness:
  "find_matches ''xmy'' ''zmw'' [\<lambda>c. c] = Some (Inr [(0, 0, 0), (1, 1, 1), (2, 2, 0)]) \<and>
   sub_windows ''xmy'' (build_index_maps ''zmw'' [\<lambda>c. c]) [\<lambda>c. c] (0, 3, 0, 3)
     = [(0, 1, 0, 1), (2, 3, 2, 3)] \<and>
   window_smaller (0, 1, 0, 1) (0, 3, 0, 3) \<and> window_smaller (2, 3, 2, 3) (0, 3, 0, 3)"
proof -
  have e: "find_matches ''xmy'' ''zmw'' [\<lambda>c. c] = Some (Inr [(0, 0, 0), (1, 1, 1), (2, 2, 0)])"
    by (simp add: find_matches_def build_index_maps_def index_line_def setdefault_append_def
      find_loop.simps lcs_def b_matches_def heapq_merge_def list_get_def dict_get_def dict_set_def)
  have s: "sub_windows ''xmy'' (build_index_maps ''zmw'' [\<lambda>c. c]) [\<lambda>c. c] (0, 3, 0, 3)
     = [(0, 1, 0, 1), (2, 3, 2, 3)]"
    by (simp add: sub_windows_def build_index_maps_def index_line_def setdefault_append_def
      lcs_def b_matches_def heapq_merge_def list_get_def dict_get_def dict_set_def)
  from find_matches_terminates [of "''xmy''" "''zmw''" "[\<lambda>c. c]"
      "build_index_maps ''zmw'' [\<lambda>c. c]"]
  have "sub_windows ''xmy'' (build_index_maps ''zmw'' [\<lambda>c. c]) [\<lambda>c. c] (0, 3, 0, 3) = [] \<or>
        (\<exists>w1 w2. sub_windows ''xmy'' (build_index_maps ''zmw'' [\<lambda>c. c]) [\<lambda>c. c] (0, 3, 0, 3)
            = [w1, w2] \<and> window_smaller w1 (0, 3, 0, 3) \<and> window_smaller w2 (0, 3, 0, 3))"
    by blast
  then have "window_smaller (0, 1, 0, 1) (0, 3, 0, 3) \<and> window_smaller (2, 3, 2, 3) (0, 3, 0, 3)"
    unfolding s by simp
  with e s show ?thesis by simp
qed

section \<open>Three-way merge: \<open>diff3\<close>\<close>


text \<open>
  \<open>hunks_equal\<close>: equal lengths and pairwise equal lines; \<open>all\<close> stops at the first
  pair that differs.
\<close>

fun all_equal :: "ASSLine list \<Rightarrow> ASSLine list \<Rightarrow> (int \<times> int) list \<Rightarrow> error + bool" where
  "all_equal list1 list2 [] = Inr True"
| "all_equal list1 list2 ((i, j) # rest) =
     ebind (list_get list1 i) (\<lambda>x.
     ebind (list_get list2 j) (\<lambda>y.
     ebind (line_eq x y) (\<lambda>e. if e then all_equal list1 list2 rest else Inr False)))"

definition hunks_equal :: "ASSLine list \<Rightarrow> int list \<Rightarrow> ASSLine list \<Rightarrow> int list \<Rightarrow> error + bool" where
  "hunks_equal list1 hunk1 list2 hunk2 =
     (if length hunk1 = length hunk2 then all_equal list1 list2 (zip hunk1 hunk2) else Inr False)"

text \<open>The lines \<open>xs[i] for i in hunk\<close>.\<close>

fun slice :: "'a list \<Rightarrow> int list \<Rightarrow> error + 'a list" where
  "slice xs [] = Inr []"
| "slice xs (i # hunk) =
     ebind (list_get xs i) (\<lambda>x. ebind (slice xs hunk) (\<lambda>rest. Inr (x # rest)))"

text \<open>
  A conflict handler turns the three slices of a hunk into the lines to emit and
  records, in a state of its own, that it ran; it may raise. \<open>process_hunks\<close> yields the
  lines of a hunk; the handler's state is threaded through.
\<close>

type_synonym 's handler =
  "'s \<Rightarrow> ASSLine list \<Rightarrow> ASSLine list \<Rightarrow> ASSLine list \<Rightarrow> error + ASSLine list \<times> 's"

definition process_hunks ::
  "ASSLine list \<Rightarrow> ASSLine list \<Rightarrow> ASSLine list \<Rightarrow> 's handler \<Rightarrow> 's
     \<Rightarrow> int list \<Rightarrow> int list \<Rightarrow> int list \<Rightarrow> error + ASSLine list \<times> 's"
where
  "process_hunks A O' B conflict_handler s a_hunk b_hunk o_hunk =
     ebind (hunks_equal A a_hunk O' o_hunk) (\<lambda>a_same.
     ebind (hunks_equal B b_hunk O' o_hunk) (\<lambda>b_same.
     ebind (hunks_equal A a_hunk B b_hunk) (\<lambda>ab_equal.
       (let a_changed = \<not> a_same; b_changed = \<not> b_same in
        if ab_equal \<or> (a_changed \<and> \<not> b_changed) then
          ebind (slice A a_hunk) (\<lambda>ls. Inr (ls, s))
        else if b_changed \<and> \<not> a_changed then
          ebind (slice B b_hunk) (\<lambda>ls. Inr (ls, s))
        else
          ebind (slice A a_hunk) (\<lambda>la.
          ebind (slice B b_hunk) (\<lambda>lb.
          ebind (slice O' o_hunk) (\<lambda>lo. conflict_handler s la lb lo)))))))"

text \<open>
  The walk \<open>for o in o_to_a\<close>, over the entries \<open>(o, o_to_a[o])\<close> (the position \<open>o\<close> is
  written \<open>o'\<close>) that are left, with the three cursors, the lines yielded so far and the
  handler's state; after the last entry the final hunk is flushed. \<open>O[o].merge\<close> is the
  merge of the class of the ancestor's line.
\<close>

fun diff3_loop ::
  "ASSLine list \<Rightarrow> ASSLine list \<Rightarrow> ASSLine list \<Rightarrow> 's handler \<Rightarrow> (int, int) dict
     \<Rightarrow> (int \<times> int) list \<Rightarrow> int \<times> int \<times> int \<Rightarrow> ASSLine list \<Rightarrow> 's
     \<Rightarrow> error + ASSLine list \<times> 's"
where
  "diff3_loop A O' B conflict_handler o_to_b [] (prev_a, prev_b, prev_o) out s =
     ebind (process_hunks A O' B conflict_handler s
              (range (prev_a + 1) (int (length A)))
              (range (prev_b + 1) (int (length B)))
              (range (prev_o + 1) (int (length O'))))
       (\<lambda>(ls, s'). Inr (out @ ls, s'))"
| "diff3_loop A O' B conflict_handler o_to_b ((o', a) # rest) (prev_a, prev_b, prev_o) out s =
     (case dict_get o_to_b o' of
        None \<Rightarrow> diff3_loop A O' B conflict_handler o_to_b rest (prev_a, prev_b, prev_o) out s
      | Some b \<Rightarrow>
          ebind (list_get O' o') (\<lambda>line_o.
          ebind (list_get A a) (\<lambda>line_a.
          ebind (list_get B b) (\<lambda>line_b.
          ebind (merge (class_of line_o) line_a line_o line_b) (\<lambda>line.
            case line of
              None \<Rightarrow>
                diff3_loop A O' B conflict_handler o_to_b rest (prev_a, prev_b, prev_o) out s
            | Some merged \<Rightarrow>
                ebind (if a > prev_a + 1 \<or> b > prev_b + 1
                       then process_hunks A O' B conflict_handler s
                              (range (prev_a + 1) a) (range (prev_b + 1) b) (range (prev_o + 1) o')
                       else Inr ([], s))
                  (\<lambda>(ls, s').
                     diff3_loop A O' B conflict_handler o_to_b rest (a, b, o')
                       (out @ ls @ [merged]) s'))))))"


subsection \<open>The conflict handler for events\<close>

text \<open>
  The command-line options the handler reads, the table \<open>CONFLICT_MARKERS\<close>, and the
  comment line that carries a marker: \<open>DialogueLine(CONFLICT_LINE.format(marker))\<close>,
  whose text is the marker, whatever it holds, since the text is the last of the ten
  fields the line is split into. The handler's state is the flag \<open>dialogue_conflict\<close>.
\<close>

record args =
  conflict_marker :: string
  conflict_marker_size :: int
  args_diff3 :: bool

definition CONFLICT_MARKERS :: "args \<Rightarrow> string \<Rightarrow> string" where
  "CONFLICT_MARKERS args which =
     (if conflict_marker args = ''diff3'' then
        replicate (nat (conflict_marker_size args))
          (if which = ''ours'' then CHR ''<'' else if which = ''ancestor'' then CHR ''|''
           else if which = ''theirs'' then CHR ''='' else CHR ''>'')
      else if which = ''ours'' then ''Start of own hunk''
      else if which = ''ancestor'' then ''End of own hunk; Start of common ancestor's hunk''
      else if which = ''theirs'' then
        ''End of '' @ (if args_diff3 args then ''common ancestor's'' else ''own'')
          @ '' hunk; Start of other hunk''
      else ''End of other hunk'')"

definition CONFLICT_LINE :: "string \<Rightarrow> error + ASSLine" where
  "CONFLICT_LINE marker =
     DialogueLine_init
       [(''Layer'', ''0''), (''Start'', ''0:00:00.00''), (''End'', ''0:00:00.00''),
        (''Style'', ''Default''), (''Name'', ''''), (''MarginL'', ''0''), (''MarginR'', ''0''),
        (''MarginV'', ''0''), (''Effect'', ''CONFLICT''), (''Text'', marker),
        (''Type'', ''Comment'')]
       None"

definition dialogue_conflict_handler :: "args \<Rightarrow> bool handler" where
  "dialogue_conflict_handler args dialogue_conflict a_hunk b_hunk o_hunk =
     ebind (CONFLICT_LINE (CONFLICT_MARKERS args ''ours'')) (\<lambda>ours.
     ebind (if args_diff3 args
            then ebind (CONFLICT_LINE (CONFLICT_MARKERS args ''ancestor''))
                   (\<lambda>ancestor. Inr ([ancestor] @ o_hunk))
            else Inr []) (\<lambda>middle.
     ebind (CONFLICT_LINE (CONFLICT_MARKERS args ''theirs'')) (\<lambda>theirs.
     ebind (CONFLICT_LINE (CONFLICT_MARKERS args ''end'')) (\<lambda>ending.
       Inr ([ours] @ a_hunk @ middle @ [theirs] @ b_hunk @ [ending], True)))))"

subsection \<open>Equality of lines and of hunks\<close>

lemma dict_eq_iff:
  assumes "distinct (dict_keys d1)" "distinct (dict_keys d2)"
  shows "dict_eq d1 d2 \<longleftrightarrow> (\<forall>k. dict_get d1 k = dict_get d2 k)"
proof
  assume e: "dict_eq d1 d2"
  show "\<forall>k. dict_get d1 k = dict_get d2 k"
  proof
    fix k
    show "dict_get d1 k = dict_get d2 k"
    proof (cases "dict_get d1 k")
      case (Some v)
      then have "(k, v) \<in> set d1" unfolding dict_get_def by (rule map_of_SomeD)
      with e Some show ?thesis by (auto simp: dict_eq_def list_all_iff)
    next
      case None
      show ?thesis
      proof (cases "dict_get d2 k")
        case (Some v)
        then have "(k, v) \<in> set d2" unfolding dict_get_def by (rule map_of_SomeD)
        with e None show ?thesis by (auto simp: dict_eq_def list_all_iff)
      next
        case n2: None
        with None show ?thesis by simp
      qed
    qed
  qed
next
  assume a: "\<forall>k. dict_get d1 k = dict_get d2 k"
  have "dict_get d2 k = Some v" if "(k, v) \<in> set d1" for k v
  proof -
    from that assms(1) have "dict_get d1 k = Some v" by (simp add: dict_get_def dict_keys_def)
    with a show ?thesis by simp
  qed
  moreover have "dict_get d1 k = Some v" if "(k, v) \<in> set d2" for k v
  proof -
    from that assms(2) have "dict_get d2 k = Some v" by (simp add: dict_get_def dict_keys_def)
    with a show ?thesis by simp
  qed
  ultimately show "dict_eq d1 d2" by (auto simp: dict_eq_def list_all_iff)
qed

lemma distinct_dict_of: "distinct (dict_keys (dict_of kvs))"
  unfolding dict_of_def by (rule distinct_dict_update) (simp add: dict_keys_def)

lemma line_eq_field_map:
  assumes "''Type'' \<in> field_names x" "''Type'' \<in> field_names y"
  shows "line_eq x y = Inr (field_map x = field_map y)"
proof -
  from dict_of_items [OF assms(1)] obtain ix where
    ix: "items x = Inr ix" "dict_get (dict_of ix) = field_map x" by blast
  from dict_of_items [OF assms(2)] obtain iy where
    iy: "items y = Inr iy" "dict_get (dict_of iy) = field_map y" by blast
  have "dict_eq (dict_of ix) (dict_of iy) \<longleftrightarrow> field_map x = field_map y"
    unfolding dict_eq_iff [OF distinct_dict_of distinct_dict_of] ix(2) iy(2)
    by (auto simp: fun_eq_iff)
  then show ?thesis by (simp add: line_eq_def ix(1) iy(1))
qed

text \<open>
  Vocabulary for the statements. A hunk is in range when its positions are positions of
  the sequence; \<open>lines_at\<close> are the lines at the positions of a hunk and
  \<open>lines_between\<close> the lines after one position and before another; the content of a
  slice is the list of the mappings its lines show.
\<close>

definition in_range :: "'a list \<Rightarrow> int list \<Rightarrow> bool" where
  "in_range xs hunk \<longleftrightarrow> (\<forall>i \<in> set hunk. 0 \<le> i \<and> i < int (length xs))"

definition lines_at :: "'a list \<Rightarrow> int list \<Rightarrow> 'a list" where
  "lines_at xs hunk = map (\<lambda>i. xs ! nat i) hunk"

definition lines_between :: "'a list \<Rightarrow> int \<Rightarrow> int \<Rightarrow> 'a list" where
  "lines_between xs lo hi = drop (nat (lo + 1)) (take (nat hi) xs)"

definition content :: "ASSLine list \<Rightarrow> (string \<rightharpoonup> string) list" where
  "content ls = map field_map ls"

text \<open>
  The hunk rules, in the words of the specification: a slice that only local changed is
  emitted as local has it, a slice that only remote changed as remote has it, a slice
  that is the same on both sides as local has it, and every other slice goes to the
  resolver, whose result is emitted as it is.
\<close>

definition hunk_rules ::
  "'s handler \<Rightarrow> 's \<Rightarrow> ASSLine list \<Rightarrow> ASSLine list \<Rightarrow> ASSLine list \<Rightarrow> error + ASSLine list \<times> 's"
where
  "hunk_rules resolver s local_slice remote_slice ancestor_slice =
     (if content local_slice \<noteq> content ancestor_slice \<and>
         content remote_slice = content ancestor_slice then Inr (local_slice, s)
      else if content remote_slice \<noteq> content ancestor_slice \<and>
              content local_slice = content ancestor_slice then Inr (remote_slice, s)
      else if content local_slice = content remote_slice then Inr (local_slice, s)
      else resolver s local_slice remote_slice ancestor_slice)"

lemma in_range_range: "0 \<le> lo \<Longrightarrow> hi \<le> int (length xs) \<Longrightarrow> in_range xs (range lo hi)"
  by (auto simp: in_range_def range_def)

lemma slice_in_range: "in_range xs hunk \<Longrightarrow> slice xs hunk = Inr (lines_at xs hunk)"
  by (induction hunk) (auto simp: in_range_def lines_at_def list_get_in_range)

lemma range_slice:
  assumes "0 \<le> lo" "lo \<le> hi" "hi \<le> int (length xs)"
  shows "map (\<lambda>i. xs ! nat i) (range lo hi) = drop (nat lo) (take (nat hi) xs)"
proof (rule nth_equalityI)
  show len: "length (map (\<lambda>i. xs ! nat i) (range lo hi)) = length (drop (nat lo) (take (nat hi) xs))"
    using assms by (simp add: range_def)
  fix k assume "k < length (map (\<lambda>i. xs ! nat i) (range lo hi))"
  then have k: "lo + int k \<le> hi - 1" by (simp add: range_def)
  then have "[lo..hi - 1] ! k = lo + int k" by (rule nth_upto)
  moreover have "nat (lo + int k) = nat lo + k" using assms(1) by linarith
  moreover have "nat lo + k < nat hi" using k assms(1) by linarith
  ultimately show "map (\<lambda>i. xs ! nat i) (range lo hi) ! k = drop (nat lo) (take (nat hi) xs) ! k"
    using k assms by (simp add: range_def)
qed

lemma lines_at_range:
  assumes "- 1 \<le> lo" "hi \<le> int (length xs)"
  shows "lines_at xs (range (lo + 1) hi) = lines_between xs lo hi"
proof (cases "lo + 1 \<le> hi")
  case True
  with assms show ?thesis
    unfolding lines_at_def lines_between_def by (intro range_slice) simp_all
next
  case False
  then show ?thesis by (simp add: lines_at_def lines_between_def range_def)
qed

lemma all_equal_content:
  assumes "\<forall>l \<in> set l1 \<union> set l2. ''Type'' \<in> field_names l"
    and "length h1 = length h2" "in_range l1 h1" "in_range l2 h2"
  shows "all_equal l1 l2 (zip h1 h2) = Inr (content (lines_at l1 h1) = content (lines_at l2 h2))"
  using assms(2,3,4)
proof (induction h1 h2 rule: list_induct2)
  case Nil
  show ?case by (simp add: content_def lines_at_def)
next
  case (Cons i h1 j h2)
  have r: "0 \<le> i" "i < int (length l1)" "0 \<le> j" "j < int (length l2)"
    using Cons.prems by (simp_all add: in_range_def)
  have t: "''Type'' \<in> field_names (l1 ! nat i)" "''Type'' \<in> field_names (l2 ! nat j)"
    using assms(1) r by (simp_all add: nat_less_iff)
  have rest: "all_equal l1 l2 (zip h1 h2) = Inr (content (lines_at l1 h1) = content (lines_at l2 h2))"
    using Cons.IH Cons.prems by (simp add: in_range_def)
  show ?case
    by (simp add: list_get_in_range r line_eq_field_map [OF t] rest)
       (simp add: content_def lines_at_def)
qed

lemma hunks_equal_content:
  assumes "\<forall>l \<in> set l1 \<union> set l2. ''Type'' \<in> field_names l" "in_range l1 h1" "in_range l2 h2"
  shows "hunks_equal l1 h1 l2 h2 = Inr (content (lines_at l1 h1) = content (lines_at l2 h2))"
proof (cases "length h1 = length h2")
  case True
  then show ?thesis
    using all_equal_content [OF assms(1) True assms(2,3)] by (simp add: hunks_equal_def)
next
  case False
  then have "content (lines_at l1 h1) \<noteq> content (lines_at l2 h2)"
    by (auto simp: content_def lines_at_def dest: map_eq_imp_length_eq)
  with False show ?thesis by (simp add: hunks_equal_def)
qed

text \<open>\<open>process_hunks\<close> follows the hunk rules on the three slices.\<close>

lemma process_hunks_rules:
  assumes wf: "\<forall>l \<in> set A \<union> set B \<union> set O'. ''Type'' \<in> field_names l"
    and ra: "in_range A a_hunk" and rb: "in_range B b_hunk" and ro: "in_range O' o_hunk"
  shows "process_hunks A O' B resolver s a_hunk b_hunk o_hunk =
           hunk_rules resolver s (lines_at A a_hunk) (lines_at B b_hunk) (lines_at O' o_hunk)"
proof -
  have s1: "\<forall>l \<in> set A \<union> set O'. ''Type'' \<in> field_names l"
    and s2: "\<forall>l \<in> set B \<union> set O'. ''Type'' \<in> field_names l"
    and s3: "\<forall>l \<in> set A \<union> set B. ''Type'' \<in> field_names l"
    using wf by auto
  note eq = hunks_equal_content [OF s1 ra ro] hunks_equal_content [OF s2 rb ro]
    hunks_equal_content [OF s3 ra rb]
  show ?thesis
    unfolding process_hunks_def eq hunk_rules_def
    by (auto simp: Let_def slice_in_range [OF ra] slice_in_range [OF rb] slice_in_range [OF ro])
qed

lemma hunk_rules_empty: "hunk_rules resolver s [] [] ancestor_slice = Inr ([], s)"
  by (simp add: hunk_rules_def content_def)

text \<open>
  One round of the walk, at an entry that is matched on both sides and whose lines merge:
  the ranges since the last confirmed positions are resolved by the hunk rules, and the
  merged line follows what they emit. Where local and remote have no gap the source does
  not call \<open>process_hunks\<close>; the two ranges are empty then, and the hunk rules emit
  nothing for them and leave the resolver alone.
\<close>

lemma diff3_loop_step:
  assumes wf: "\<forall>l \<in> set A \<union> set B \<union> set O'. ''Type'' \<in> field_names l"
    and pa: "- 1 \<le> prev_a" "0 \<le> a" "a < int (length A)"
    and pb: "- 1 \<le> prev_b" "0 \<le> b" "b < int (length B)"
    and po: "- 1 \<le> prev_o" "0 \<le> o'" "o' < int (length O')"
    and ob: "dict_get o_to_b o' = Some b"
    and m: "merge (class_of (O' ! nat o')) (A ! nat a) (O' ! nat o') (B ! nat b) = Inr (Some line)"
  shows "diff3_loop A O' B resolver o_to_b ((o', a) # rest) (prev_a, prev_b, prev_o) out s =
           ebind (hunk_rules resolver s (lines_between A prev_a a) (lines_between B prev_b b)
                    (lines_between O' prev_o o'))
             (\<lambda>(flushed, s'). diff3_loop A O' B resolver o_to_b rest (a, b, o')
                                 (out @ flushed @ [line]) s')"
proof -
  have ra: "in_range A (range (prev_a + 1) a)" and rb: "in_range B (range (prev_b + 1) b)"
    and ro: "in_range O' (range (prev_o + 1) o')"
    using pa pb po by (simp_all add: in_range_range)
  have flush: "process_hunks A O' B resolver s
                 (range (prev_a + 1) a) (range (prev_b + 1) b) (range (prev_o + 1) o') =
               hunk_rules resolver s (lines_between A prev_a a) (lines_between B prev_b b)
                 (lines_between O' prev_o o')"
    using pa pb po by (simp add: process_hunks_rules [OF wf ra rb ro] lines_at_range)
  have none: "hunk_rules resolver s (lines_between A prev_a a) (lines_between B prev_b b)
                 (lines_between O' prev_o o') = Inr ([], s)"
    if "\<not> (a > prev_a + 1 \<or> b > prev_b + 1)"
  proof -
    from that have "nat a \<le> nat (prev_a + 1)" "nat b \<le> nat (prev_b + 1)" by linarith+
    then have "lines_between A prev_a a = []" "lines_between B prev_b b = []"
      by (simp_all add: lines_between_def)
    then show ?thesis by (simp add: hunk_rules_empty)
  qed
  have test: "(if a > prev_a + 1 \<or> b > prev_b + 1
               then process_hunks A O' B resolver s
                      (range (prev_a + 1) a) (range (prev_b + 1) b) (range (prev_o + 1) o')
               else Inr ([], s)) =
              hunk_rules resolver s (lines_between A prev_a a) (lines_between B prev_b b)
                 (lines_between O' prev_o o')"
    using flush none by (cases "a > prev_a + 1 \<or> b > prev_b + 1") simp_all
  show ?thesis
    unfolding diff3_loop.simps ob option.case
      list_get_in_range [OF po(2,3)] list_get_in_range [OF pa(2,3)] list_get_in_range [OF pb(2,3)]
      ebind_Inr m test ..
qed

text \<open>
  Events to run the merge on: the line one file has for a text, with the times fixed,
  the line \<open>merge\<close> builds for it, and the options of a run.
\<close>

definition ev :: "string \<Rightarrow> string \<Rightarrow> ASSLine" where
  "ev src txt = (event ''0:01'' ''0:02'' txt)\<lparr>source_file := Some src\<rparr>"

definition merged_ev :: "string \<Rightarrow> ASSLine" where
  "merged_ev txt =
     \<lparr>class_of = DialogueLine_cls,
      fields_dict = [(''Type'', ''Dialogue''), (''Layer'', ''0''), (''Start'', ''0:01''),
        (''End'', ''0:02''), (''Style'', ''Default''), (''Name'', ''''), (''MarginL'', ''0''),
        (''MarginR'', ''0''), (''MarginV'', ''0''), (''Effect'', ''''), (''Text'', txt)],
      source_file = Some ''?'', extra_indices = []\<rparr>"

definition marker_line :: "string \<Rightarrow> ASSLine" where
  "marker_line marker =
     \<lparr>class_of = DialogueLine_cls,
      fields_dict = [(''Layer'', ''0''), (''Start'', ''0:00:00.00''), (''End'', ''0:00:00.00''),
        (''Style'', ''Default''), (''Name'', ''''), (''MarginL'', ''0''), (''MarginR'', ''0''),
        (''MarginV'', ''0''), (''Effect'', ''CONFLICT''), (''Text'', marker),
        (''Type'', ''Comment'')],
      source_file = None, extra_indices = []\<rparr>"

definition ex_args :: args where
  "ex_args = \<lparr>conflict_marker = ''description'', conflict_marker_size = 7, args_diff3 = False\<rparr>"

lemma ev_Type: "''Type'' \<in> field_names (ev src txt)"
  by (simp add: ev_def event_def event_fields_def field_names_def dict_keys_def)

lemma field_map_ev: "field_map (ev src txt) = map_of (event_fields ''0:01'' ''0:02'' txt)"
  by (simp add: ev_def event_def field_map_def)

lemma field_map_ev_eq: "field_map (ev s1 t1) = field_map (ev s2 t2) \<longleftrightarrow> t1 = t2"
proof
  assume "field_map (ev s1 t1) = field_map (ev s2 t2)"
  then have "field_map (ev s1 t1) ''Text'' = field_map (ev s2 t2) ''Text''" by simp
  then show "t1 = t2" by (simp add: field_map_ev event_fields_def)
next
  assume "t1 = t2"
  then show "field_map (ev s1 t1) = field_map (ev s2 t2)" by (simp add: field_map_ev)
qed

lemma handler_description:
  "dialogue_conflict_handler ex_args flag la lb lo =
     Inr ([marker_line ''Start of own hunk''] @ la
            @ [marker_line ''End of own hunk; Start of other hunk''] @ lb
            @ [marker_line ''End of other hunk''], True)"
  by (simp add: dialogue_conflict_handler_def CONFLICT_LINE_def CONFLICT_MARKERS_def ex_args_def
      DialogueLine_init_def ASSLine_init_def getattr_def dict_get_def match_text_def marker_line_def)

lemma merge_ev:
  "merge DialogueLine_cls (ev ''Own'' txt) (ev ''Parent'' txt) (ev ''Other'' txt) =
     (case match_text txt of
        None \<Rightarrow> Inr (Some (merged_ev txt))
      | Some (indices, group2) \<Rightarrow>
          Inr (Some ((merged_ev group2)\<lparr>extra_indices := indices\<rparr>)))"
  by (simp add: ev_def merged_ev_def merge_def changed_def items_def iter_line_def getitem_def
      getattr_def Text_def new_line_def DialogueLine_init_def ASSLine_init_def dict_get_def
      dict_set_def dict_keys_def dict_of_def dict_update_def event_def event_fields_def
      split: option.splits)

text \<open>
  Claim C3. For a hunk whose positions lie in the three sequences, of lines that have a
  type: when the local slice differs in content from the ancestor's and the remote one
  does not, the local slice is emitted; when the remote slice differs and the local one
  does not, the remote slice is emitted; when the local and the remote slice have the
  same content, whether or not they differ from the ancestor's, the local slice is
  emitted; in every other case the handler is called on the three slices and what it
  returns is the result. The handler's state changes in that last case only.
\<close>

theorem process_hunks_classification:
  assumes "\<forall>l \<in> set A \<union> set B \<union> set O'. ''Type'' \<in> field_names l"
    and "in_range A a_hunk" "in_range B b_hunk" "in_range O' o_hunk"
  shows "(content (lines_at A a_hunk) \<noteq> content (lines_at O' o_hunk) \<and>
          content (lines_at B b_hunk) = content (lines_at O' o_hunk) \<longrightarrow>
            process_hunks A O' B conflict_handler s a_hunk b_hunk o_hunk
              = Inr (lines_at A a_hunk, s)) \<and>
         (content (lines_at B b_hunk) \<noteq> content (lines_at O' o_hunk) \<and>
          content (lines_at A a_hunk) = content (lines_at O' o_hunk) \<longrightarrow>
            process_hunks A O' B conflict_handler s a_hunk b_hunk o_hunk
              = Inr (lines_at B b_hunk, s)) \<and>
         (content (lines_at A a_hunk) = content (lines_at B b_hunk) \<longrightarrow>
            process_hunks A O' B conflict_handler s a_hunk b_hunk o_hunk
              = Inr (lines_at A a_hunk, s)) \<and>
         (content (lines_at A a_hunk) \<noteq> content (lines_at B b_hunk) \<and>
          content (lines_at A a_hunk) \<noteq> content (lines_at O' o_hunk) \<and>
          content (lines_at B b_hunk) \<noteq> content (lines_at O' o_hunk) \<longrightarrow>
            process_hunks A O' B conflict_handler s a_hunk b_hunk o_hunk
              = conflict_handler s (lines_at A a_hunk) (lines_at B b_hunk) (lines_at O' o_hunk))"
  unfolding process_hunks_rules [OF assms] hunk_rules_def by auto

theorem process_hunks_classification_witness:
  "process_hunks [ev ''Own'' ''new''] [ev ''Parent'' ''old''] [ev ''Other'' ''old'']
       (dialogue_conflict_handler ex_args) False [0] [0] [0]
     = Inr ([ev ''Own'' ''new''], False) \<and>
   process_hunks [ev ''Own'' ''old''] [ev ''Parent'' ''old''] [ev ''Other'' ''new'']
       (dialogue_conflict_handler ex_args) False [0] [0] [0]
     = Inr ([ev ''Other'' ''new''], False) \<and>
   process_hunks [ev ''Own'' ''new''] [ev ''Parent'' ''old''] [ev ''Other'' ''new'']
       (dialogue_conflict_handler ex_args) False [0] [0] [0]
     = Inr ([ev ''Own'' ''new''], False) \<and>
   process_hunks [ev ''Own'' ''new''] [ev ''Parent'' ''old''] [ev ''Other'' ''other'']
       (dialogue_conflict_handler ex_args) False [0] [0] [0]
     = Inr ([marker_line ''Start of own hunk'', ev ''Own'' ''new'',
             marker_line ''End of own hunk; Start of other hunk'', ev ''Other'' ''other'',
             marker_line ''End of other hunk''], True)"
proof -
  have wf: "\<forall>l \<in> set [ev sa ta] \<union> set [ev sb tb] \<union> set [ev sp tp]. ''Type'' \<in> field_names l"
    for sa ta sb tb sp tp
    by (simp add: ev_Type)
  have r: "in_range [x] [0]" for x :: ASSLine
    by (simp add: in_range_def)
  have 1: "process_hunks [ev ''Own'' ''new''] [ev ''Parent'' ''old''] [ev ''Other'' ''old'']
       (dialogue_conflict_handler ex_args) False [0] [0] [0] = Inr ([ev ''Own'' ''new''], False)"
    using process_hunks_classification [OF wf [of "''Own''" "''new''" "''Other''" "''old''" "''Parent''" "''old''"] r r r,
        where conflict_handler = "dialogue_conflict_handler ex_args" and s = False]
    by (simp add: content_def lines_at_def field_map_ev_eq)
  have 2: "process_hunks [ev ''Own'' ''old''] [ev ''Parent'' ''old''] [ev ''Other'' ''new'']
       (dialogue_conflict_handler ex_args) False [0] [0] [0] = Inr ([ev ''Other'' ''new''], False)"
    using process_hunks_classification [OF wf [of "''Own''" "''old''" "''Other''" "''new''" "''Parent''" "''old''"] r r r,
        where conflict_handler = "dialogue_conflict_handler ex_args" and s = False]
    by (simp add: content_def lines_at_def field_map_ev_eq)
  have 3: "process_hunks [ev ''Own'' ''new''] [ev ''Parent'' ''old''] [ev ''Other'' ''new'']
       (dialogue_conflict_handler ex_args) False [0] [0] [0] = Inr ([ev ''Own'' ''new''], False)"
    using process_hunks_classification [OF wf [of "''Own''" "''new''" "''Other''" "''new''" "''Parent''" "''old''"] r r r,
        where conflict_handler = "dialogue_conflict_handler ex_args" and s = False]
    by (simp add: content_def lines_at_def field_map_ev_eq)
  have 4: "process_hunks [ev ''Own'' ''new''] [ev ''Parent'' ''old''] [ev ''Other'' ''other'']
       (dialogue_conflict_handler ex_args) False [0] [0] [0]
     = Inr ([marker_line ''Start of own hunk'', ev ''Own'' ''new'',
             marker_line ''End of own hunk; Start of other hunk'', ev ''Other'' ''other'',
             marker_line ''End of other hunk''], True)"
    using process_hunks_classification [OF wf [of "''Own''" "''new''" "''Other''" "''other''" "''Parent''" "''old''"] r r r,
        where conflict_handler = "dialogue_conflict_handler ex_args" and s = False]
    by (simp add: content_def lines_at_def field_map_ev_eq handler_description)
  from 1 2 3 4 show ?thesis by (intro conjI)
qed

text \<open>
  Claim C4. In the walk, at an ancestor position that both alignments cover and whose
  three lines merge, with a gap since the last confirmed position in local, in remote or
  in the ancestor: the lines of the three ranges in between are classified and resolved
  by the hunk rules, what the rules emit is yielded, the merged line is yielded after
  it, and the walk goes on from the new positions. (The source tests the local and the
  remote cursor; where the gap is in the ancestor alone the two ranges are empty, for
  which the rules emit nothing and do not call the resolver.)
\<close>

theorem diff3_flushes_on_any_gap:
  assumes "\<forall>l \<in> set A \<union> set B \<union> set O'. ''Type'' \<in> field_names l"
    and "- 1 \<le> prev_a" "0 \<le> a" "a < int (length A)"
    and "- 1 \<le> prev_b" "0 \<le> b" "b < int (length B)"
    and "- 1 \<le> prev_o" "0 \<le> o'" "o' < int (length O')"
    and "dict_get o_to_b o' = Some b"
    and "merge (class_of (O' ! nat o')) (A ! nat a) (O' ! nat o') (B ! nat b) = Inr (Some line)"
    and "a > prev_a + 1 \<or> b > prev_b + 1 \<or> o' > prev_o + 1"
  shows "diff3_loop A O' B resolver o_to_b ((o', a) # rest) (prev_a, prev_b, prev_o) out s =
           ebind (hunk_rules resolver s (lines_between A prev_a a) (lines_between B prev_b b)
                    (lines_between O' prev_o o'))
             (\<lambda>(flushed, s'). diff3_loop A O' B resolver o_to_b rest (a, b, o')
                                 (out @ flushed @ [line]) s')"
  using assms(1-12) by (rule diff3_loop_step)

theorem diff3_flushes_on_any_gap_witness:
  "diff3_loop [ev ''Own'' ''x'', ev ''Own'' ''n'', ev ''Own'' ''z'']
       [ev ''Parent'' ''x'', ev ''Parent'' ''z''] [ev ''Other'' ''x'', ev ''Other'' ''z'']
       (dialogue_conflict_handler ex_args) [(0, 0), (1, 1)] [(1, 2)] (0, 0, 0)
       [merged_ev ''x''] False
     = Inr ([merged_ev ''x'', ev ''Own'' ''n'', merged_ev ''z''], False) \<and>
   diff3_loop [ev ''Own'' ''x'', ev ''Own'' ''n'', ev ''Own'' ''z'']
       [ev ''Parent'' ''x'', ev ''Parent'' ''z'']
       [ev ''Other'' ''x'', ev ''Other'' ''m'', ev ''Other'' ''z'']
       (dialogue_conflict_handler ex_args) [(0, 0), (1, 2)] [(1, 2)] (0, 0, 0)
       [merged_ev ''x''] False
     = Inr ([merged_ev ''x'', marker_line ''Start of own hunk'', ev ''Own'' ''n'',
             marker_line ''End of own hunk; Start of other hunk'', ev ''Other'' ''m'',
             marker_line ''End of other hunk'', merged_ev ''z''], True) \<and>
   diff3_loop [ev ''Own'' ''x'', ev ''Own'' ''z'']
       [ev ''Parent'' ''x'', ev ''Parent'' ''y'', ev ''Parent'' ''z'']
       [ev ''Other'' ''x'', ev ''Other'' ''z'']
       (dialogue_conflict_handler ex_args) [(0, 0), (2, 1)] [(2, 1)] (0, 0, 0)
       [merged_ev ''x''] False
     = Inr ([merged_ev ''x'', merged_ev ''z''], False)"
proof -
  have mz: "merge DialogueLine_cls (ev ''Own'' ''z'') (ev ''Parent'' ''z'') (ev ''Other'' ''z'')
              = Inr (Some (merged_ev ''z''))"
    by (simp add: merge_ev match_text_def)
  have cls: "class_of (ev src t) = DialogueLine_cls" for src t
    by (simp add: ev_def event_def)
  let ?A = "[ev ''Own'' ''x'', ev ''Own'' ''n'', ev ''Own'' ''z'']"
  let ?O = "[ev ''Parent'' ''x'', ev ''Parent'' ''z'']"
  let ?B = "[ev ''Other'' ''x'', ev ''Other'' ''z'']"
  let ?B2 = "[ev ''Other'' ''x'', ev ''Other'' ''m'', ev ''Other'' ''z'']"
  let ?A3 = "[ev ''Own'' ''x'', ev ''Own'' ''z'']"
  let ?O3 = "[ev ''Parent'' ''x'', ev ''Parent'' ''y'', ev ''Parent'' ''z'']"
  let ?H = "dialogue_conflict_handler ex_args"
  have 1: "diff3_loop ?A ?O ?B ?H [(0, 0), (1, 1)] [(1, 2)] (0, 0, 0) [merged_ev ''x''] False
             = Inr ([merged_ev ''x'', ev ''Own'' ''n'', merged_ev ''z''], False)"
  proof -
    have wf: "\<forall>l \<in> set ?A \<union> set ?B \<union> set ?O. ''Type'' \<in> field_names l"
      by (simp add: ev_Type)
    have ob: "dict_get [(0, 0), (1, 1)] (1 :: int) = Some (1 :: int)"
      by (simp add: dict_get_def)
    have m: "merge (class_of (?O ! nat 1)) (?A ! nat 2) (?O ! nat 1) (?B ! nat 1)
               = Inr (Some (merged_ev ''z''))"
      by (simp add: cls mz)
    have "diff3_loop ?A ?O ?B ?H [(0, 0), (1, 1)] [(1, 2)] (0, 0, 0) [merged_ev ''x''] False
            = ebind (hunk_rules ?H False (lines_between ?A 0 2) (lines_between ?B 0 1)
                       (lines_between ?O 0 1))
                (\<lambda>(flushed, s'). diff3_loop ?A ?O ?B ?H [(0, 0), (1, 1)] [] (2, 1, 1)
                                    ([merged_ev ''x''] @ flushed @ [merged_ev ''z'']) s')"
      by (rule diff3_flushes_on_any_gap [OF wf _ _ _ _ _ _ _ _ _ ob m]) simp_all
    also have "\<dots> = diff3_loop ?A ?O ?B ?H [(0, 0), (1, 1)] [] (2, 1, 1)
                       [merged_ev ''x'', ev ''Own'' ''n'', merged_ev ''z''] False"
      by (simp add: lines_between_def hunk_rules_def content_def)
    also have "\<dots> = Inr ([merged_ev ''x'', ev ''Own'' ''n'', merged_ev ''z''], False)"
      by (simp add: process_hunks_def hunks_equal_def range_def)
    finally show ?thesis .
  qed
  have 2: "diff3_loop ?A ?O ?B2 ?H [(0, 0), (1, 2)] [(1, 2)] (0, 0, 0) [merged_ev ''x''] False
     = Inr ([merged_ev ''x'', marker_line ''Start of own hunk'', ev ''Own'' ''n'',
             marker_line ''End of own hunk; Start of other hunk'', ev ''Other'' ''m'',
             marker_line ''End of other hunk'', merged_ev ''z''], True)"
  proof -
    have wf: "\<forall>l \<in> set ?A \<union> set ?B2 \<union> set ?O. ''Type'' \<in> field_names l"
      by (simp add: ev_Type)
    have ob: "dict_get [(0, 0), (1, 2)] (1 :: int) = Some (2 :: int)"
      by (simp add: dict_get_def)
    have m: "merge (class_of (?O ! nat 1)) (?A ! nat 2) (?O ! nat 1) (?B2 ! nat 2)
               = Inr (Some (merged_ev ''z''))"
      by (simp add: cls mz)
    have "diff3_loop ?A ?O ?B2 ?H [(0, 0), (1, 2)] [(1, 2)] (0, 0, 0) [merged_ev ''x''] False
            = ebind (hunk_rules ?H False (lines_between ?A 0 2) (lines_between ?B2 0 2)
                       (lines_between ?O 0 1))
                (\<lambda>(flushed, s'). diff3_loop ?A ?O ?B2 ?H [(0, 0), (1, 2)] [] (2, 2, 1)
                                    ([merged_ev ''x''] @ flushed @ [merged_ev ''z'']) s')"
      by (rule diff3_flushes_on_any_gap [OF wf _ _ _ _ _ _ _ _ _ ob m]) simp_all
    also have "\<dots> = diff3_loop ?A ?O ?B2 ?H [(0, 0), (1, 2)] [] (2, 2, 1)
                       [merged_ev ''x'', marker_line ''Start of own hunk'', ev ''Own'' ''n'',
                        marker_line ''End of own hunk; Start of other hunk'', ev ''Other'' ''m'',
                        marker_line ''End of other hunk'', merged_ev ''z''] True"
      by (simp add: lines_between_def hunk_rules_def content_def field_map_ev_eq
          handler_description)
    also have "\<dots> = Inr ([merged_ev ''x'', marker_line ''Start of own hunk'', ev ''Own'' ''n'',
             marker_line ''End of own hunk; Start of other hunk'', ev ''Other'' ''m'',
             marker_line ''End of other hunk'', merged_ev ''z''], True)"
      by (simp add: process_hunks_def hunks_equal_def range_def)
    finally show ?thesis .
  qed
  have 3: "diff3_loop ?A3 ?O3 ?B ?H [(0, 0), (2, 1)] [(2, 1)] (0, 0, 0) [merged_ev ''x''] False
     = Inr ([merged_ev ''x'', merged_ev ''z''], False)"
  proof -
    have wf: "\<forall>l \<in> set ?A3 \<union> set ?B \<union> set ?O3. ''Type'' \<in> field_names l"
      by (simp add: ev_Type)
    have ob: "dict_get [(0, 0), (2, 1)] (2 :: int) = Some (1 :: int)"
      by (simp add: dict_get_def)
    have m: "merge (class_of (?O3 ! nat 2)) (?A3 ! nat 1) (?O3 ! nat 2) (?B ! nat 1)
               = Inr (Some (merged_ev ''z''))"
      by (simp add: cls mz)
    have "diff3_loop ?A3 ?O3 ?B ?H [(0, 0), (2, 1)] [(2, 1)] (0, 0, 0) [merged_ev ''x''] False
            = ebind (hunk_rules ?H False (lines_between ?A3 0 1) (lines_between ?B 0 1)
                       (lines_between ?O3 0 2))
                (\<lambda>(flushed, s'). diff3_loop ?A3 ?O3 ?B ?H [(0, 0), (2, 1)] [] (1, 1, 2)
                                    ([merged_ev ''x''] @ flushed @ [merged_ev ''z'']) s')"
      by (rule diff3_flushes_on_any_gap [OF wf _ _ _ _ _ _ _ _ _ ob m]) simp_all
    also have "\<dots> = diff3_loop ?A3 ?O3 ?B ?H [(0, 0), (2, 1)] [] (1, 1, 2)
                       [merged_ev ''x'', merged_ev ''z''] False"
      by (simp add: lines_between_def hunk_rules_def content_def)
    also have "\<dots> = Inr ([merged_ev ''x'', merged_ev ''z''], False)"
      by (simp add: process_hunks_def hunks_equal_def range_def)
    finally show ?thesis .
  qed
  from 1 2 3 show ?thesis by (intro conjI)
qed

subsection \<open>Identical sides: the two alignments\<close>




subsection \<open>The position map of a monotone list of runs\<close>












subsection \<open>Identical sides: lines of one schema\<close>




subsection \<open>The walk over identical sides\<close>






subsection \<open>Identical sides: a run over events\<close>


















end
